theory Spec2Isabelle
  imports Complex_Main "HOL-Library.AList" "HOL-Library.Word"
begin

section \<open>Segment prefetch: the data model\<close>

text \<open>
  A shallow embedding of \<^verbatim>\<open>shaka.media.SegmentPrefetch\<close> and
  \<^verbatim>\<open>shaka.media.SegmentPrefetchOperation\<close> (second document of
  \<^verbatim>\<open>lib/media/manifest_filterer.js\<close>).

  JavaScript objects are compared by identity. An object whose fields the code only reads
  is modelled as a value that carries an identity token beside its fields, so two objects
  with equal fields and different tokens are different values and \<^verbatim>\<open>===\<close> is HOL
  equality. Functions handed in from outside (fetch dispatchers, consumer callbacks) and
  the pending requests a dispatcher returns are identity tokens only. Times are JavaScript
  numbers that the code only compares and copies; they are reals here (no NaN, no
  infinity). The prefetch limit is such a number too: the code takes any number for it,
  whole or not, positive or not, and only compares it.
  Logging (\<^verbatim>\<open>shaka.log.debug\<close>, \<^verbatim>\<open>logPrefix_\<close>) changes nothing and is left out.
\<close>

type_synonym fetch_dispatcher = nat
type_synonym stream_data_callback = nat
type_synonym pending_request = nat
type_synonym bytes = "8 word list"

text \<open>
  Modelled from the spec: the classes \<^verbatim>\<open>shaka.media.SegmentReference\<close> and
  \<^verbatim>\<open>shaka.media.InitSegmentReference\<close> are not among the sources. A segment
  reference has the fields the code reads (\<^verbatim>\<open>startTime\<close>, \<^verbatim>\<open>endTime\<close>,
  \<^verbatim>\<open>endByte\<close>, \<^verbatim>\<open>initSegmentReference\<close>) and one field for what each getter
  the code calls returns (\<^verbatim>\<open>getStatus()\<close>, \<^verbatim>\<open>isPreload()\<close>,
  \<^verbatim>\<open>isPartial()\<close>, \<^verbatim>\<open>isLastPartial()\<close>), as in section 3 of the
  specification. Of an init segment reference the code uses the identity only.
\<close>

datatype status = AVAILABLE | UNAVAILABLE | MISSING

datatype init_segment_reference = InitRef (init_ident: nat)

record segment_reference =
  seg_ident :: nat
  startTime :: real
  endTime :: real
  getStatus :: status
  isPreload :: bool
  isPartial :: bool
  isLastPartial :: bool
  endByte :: "nat option"
  initSegmentReference :: "init_segment_reference option"

datatype reference =
  SegmentReference segment_reference
| InitSegmentReference init_segment_reference

text \<open>
  Modelled from the spec: the segment index and the stream (\<^verbatim>\<open>shaka.extern.Stream\<close>)
  are not among the sources. A stream has the fields the code reads. Its segment index is
  taken as a parameter: what \<^verbatim>\<open>getIteratorForTime(time, allowNonIndependent)\<close>
  gives, which is no iterator (\<open>None\<close>) or the finite sequence of references that the
  iterator will yield (section 6 of the specification).
\<close>

type_synonym segment_index = "real \<Rightarrow> bool \<Rightarrow> segment_reference list option"

record stream =
  stream_id :: nat
  stream_type :: string
  fastSwitching :: bool
  segmentIndex :: "segment_index option"

text \<open>
  One \<^verbatim>\<open>SegmentPrefetchOperation\<close> object. \<open>buffered\<close> is the variable
  of that name captured by the chunk handler that \<^verbatim>\<open>dispatchFetch\<close> hands to
  the dispatcher; \<open>delivered\<close> logs the calls the handler makes to a consumer callback,
  oldest first.
\<close>

record segment_prefetch_operation =
  op_fetchDispatcher :: fetch_dispatcher
  streamDataCallback :: "stream_data_callback option"
  operation :: "pending_request option"
  buffered :: bytes
  delivered :: "(stream_data_callback \<times> bytes) list"

text \<open>
  The \<^verbatim>\<open>SegmentPrefetch\<close> object and the part of the world it acts on. The two
  \<^verbatim>\<open>Map\<close>s are association lists in insertion order whose values are addresses
  into \<open>operations\<close>, the store of operation objects (an object stays alive after its
  entry is deleted). \<open>dispatched\<close> logs the calls made to fetch dispatchers (the
  pending request returned by the \<open>k\<close>-th call is \<open>k\<close>), \<open>aborted\<close> logs the calls
  of \<^verbatim>\<open>PendingRequest.abort\<close>, and \<open>scanned\<close> is a history variable: the
  references for which the body of the scan loop ran. The model only appends to the three
  logs and never reads them.
\<close>

record segment_prefetch =
  prefetchLimit :: real
  stream :: stream
  prefetchPosTime :: real
  fetchDispatcher :: fetch_dispatcher
  deleteOnGet_fld :: bool
  segmentPrefetchMap :: "(segment_reference \<times> nat) list"
  initSegmentPrefetchMap :: "(init_segment_reference \<times> nat) list"
  operations :: "segment_prefetch_operation list"
  dispatched :: "(fetch_dispatcher \<times> reference \<times> stream) list"
  aborted :: "pending_request list"
  scanned :: "segment_reference list"

text \<open>
  Modelled from the spec: \<^verbatim>\<open>goog.asserts.assert\<close> is not among the sources. By
  sections 4.1 and 7 of the specification a call whose precondition is violated fails at
  once; that is the result \<open>Inl (AssertionError message)\<close>. \<open>NoReturn\<close> is the result
  of a call whose loop never ends.
\<close>

datatype error = AssertionError string | NoReturn

section \<open>SegmentPrefetchOperation\<close>

definition new_SegmentPrefetchOperation :: "fetch_dispatcher \<Rightarrow> segment_prefetch_operation" where
  "new_SegmentPrefetchOperation d =
     \<lparr>op_fetchDispatcher = d, streamDataCallback = None, operation = None,
      buffered = [], delivered = []\<rparr>"

definition op_replaceFetchDispatcher ::
  "segment_prefetch_operation \<Rightarrow> fetch_dispatcher \<Rightarrow> segment_prefetch_operation" where
  "op_replaceFetchDispatcher opn d = opn\<lparr>op_fetchDispatcher := d\<rparr>"

text \<open>
  \<^verbatim>\<open>dispatchFetch\<close>, seen from the operation: a fresh empty \<open>buffered\<close>, and
  \<^verbatim>\<open>operation_\<close> becomes the pending request \<open>h\<close> the dispatcher returned.
\<close>

definition op_dispatchFetch ::
  "segment_prefetch_operation \<Rightarrow> pending_request \<Rightarrow> segment_prefetch_operation" where
  "op_dispatchFetch opn h = opn\<lparr>operation := Some h, buffered := []\<rparr>"

text \<open>
  The chunk handler \<^verbatim>\<open>async (data) => {...}\<close> of \<^verbatim>\<open>dispatchFetch\<close>,
  run to completion for one chunk (the dispatcher waits for it before the next chunk).
  \<^verbatim>\<open>shaka.util.Uint8ArrayUtils.concat\<close>, which is not among the sources, is the
  concatenation of byte arrays.
\<close>

definition dispatchFetch_onData ::
  "segment_prefetch_operation \<Rightarrow> bytes \<Rightarrow> segment_prefetch_operation" where
  "dispatchFetch_onData opn data =
     (let b = (if length (buffered opn) > 0 then buffered opn @ data else data) in
      case streamDataCallback opn of
        None \<Rightarrow> opn\<lparr>buffered := b\<rparr>
      | Some cb \<Rightarrow> opn\<lparr>delivered := delivered opn @ [(cb, b)], buffered := []\<rparr>)"

definition getOperation :: "segment_prefetch_operation \<Rightarrow> pending_request option" where
  "getOperation opn = operation opn"

definition setStreamDataCallback ::
  "segment_prefetch_operation \<Rightarrow> stream_data_callback option \<Rightarrow> segment_prefetch_operation" where
  "setStreamDataCallback opn cb = opn\<lparr>streamDataCallback := cb\<rparr>"

text \<open>Chunks arriving one after the other.\<close>

definition onData_all ::
  "segment_prefetch_operation \<Rightarrow> bytes list \<Rightarrow> segment_prefetch_operation" where
  "onData_all opn chunks = foldl dispatchFetch_onData opn chunks"

section \<open>The store of operations\<close>

definition operation_at :: "segment_prefetch \<Rightarrow> nat \<Rightarrow> segment_prefetch_operation option" where
  "operation_at s a = (if a < length (operations s) then Some (operations s ! a) else None)"

definition update_operation ::
  "segment_prefetch \<Rightarrow> nat \<Rightarrow> (segment_prefetch_operation \<Rightarrow> segment_prefetch_operation)
     \<Rightarrow> segment_prefetch" where
  "update_operation s a f =
     (case operation_at s a of
        None \<Rightarrow> s
      | Some opn \<Rightarrow> s\<lparr>operations := (operations s)[a := f opn]\<rparr>)"

text \<open>
  \<^verbatim>\<open>new SegmentPrefetchOperation(this.fetchDispatcher_)\<close> followed by
  \<^verbatim>\<open>dispatchFetch(reference, this.stream_)\<close>: the new object gets the next free
  address, the dispatcher of the new object is called, and the object keeps what the
  dispatcher returned. The result is the address and the new state.
\<close>

definition dispatchFetch :: "segment_prefetch \<Rightarrow> reference \<Rightarrow> nat \<times> segment_prefetch" where
  "dispatchFetch s ref =
     (let opn = new_SegmentPrefetchOperation (fetchDispatcher s);
          a = length (operations s);
          h = length (dispatched s)
      in (a, s\<lparr>operations := operations s @ [op_dispatchFetch opn h],
               dispatched := dispatched s @ [(op_fetchDispatcher opn, ref, stream s)]\<rparr>))"

text \<open>\<^verbatim>\<open>abort()\<close> of the operation at address \<open>a\<close>.\<close>

definition abort :: "segment_prefetch \<Rightarrow> nat \<Rightarrow> segment_prefetch" where
  "abort s a =
     (case operation_at s a of
        None \<Rightarrow> s
      | Some opn \<Rightarrow>
          (case operation opn of
             None \<Rightarrow> s
           | Some h \<Rightarrow> s\<lparr>aborted := aborted s @ [h]\<rparr>))"

section \<open>SegmentPrefetch\<close>

definition new_SegmentPrefetch ::
  "real \<Rightarrow> stream \<Rightarrow> fetch_dispatcher \<Rightarrow> bool \<Rightarrow> segment_prefetch" where
  "new_SegmentPrefetch limit st d dog =
     \<lparr>prefetchLimit = limit, stream = st, prefetchPosTime = 0, fetchDispatcher = d,
      deleteOnGet_fld = dog, segmentPrefetchMap = [], initSegmentPrefetchMap = [],
      operations = [], dispatched = [], aborted = [], scanned = []\<rparr>"

definition replaceFetchDispatcher :: "segment_prefetch \<Rightarrow> fetch_dispatcher \<Rightarrow> segment_prefetch" where
  "replaceFetchDispatcher s d =
     fold (\<lambda>a s'. update_operation s' a (\<lambda>opn. op_replaceFetchDispatcher opn d))
       (map snd (segmentPrefetchMap s)) (s\<lparr>fetchDispatcher := d\<rparr>)"

definition getLastKnownPosition :: "segment_prefetch \<Rightarrow> real" where
  "getLastKnownPosition s = prefetchPosTime s"

text \<open>
  \<^verbatim>\<open>abortPrefetchedSegment_\<close>: the table is chosen by the kind of the reference,
  the entry is deleted, and the operation found (if any) is aborted.
\<close>

definition abortPrefetchedSegment :: "segment_prefetch \<Rightarrow> reference \<Rightarrow> segment_prefetch" where
  "abortPrefetchedSegment s ref =
     (case ref of
        InitSegmentReference i \<Rightarrow>
          (let segmentPrefetchOperation = map_of (initSegmentPrefetchMap s) i;
               s1 = s\<lparr>initSegmentPrefetchMap := AList.delete i (initSegmentPrefetchMap s)\<rparr>
           in case segmentPrefetchOperation of None \<Rightarrow> s1 | Some a \<Rightarrow> abort s1 a)
      | SegmentReference r \<Rightarrow>
          (let segmentPrefetchOperation = map_of (segmentPrefetchMap s) r;
               s1 = s\<lparr>segmentPrefetchMap := AList.delete r (segmentPrefetchMap s)\<rparr>
           in case segmentPrefetchOperation of None \<Rightarrow> s1 | Some a \<Rightarrow> abort s1 a))"

text \<open>
  \<^verbatim>\<open>clearInitSegments_\<close>: the keys of the media table are copied first; every
  key of the init table that none of them points to is aborted. (Deleting the entry under
  the cursor of a \<^verbatim>\<open>Map\<close> iterator does not disturb the iteration.)
\<close>

definition clearInitSegments :: "segment_prefetch \<Rightarrow> segment_prefetch" where
  "clearInitSegments s =
     (let segmentReferences = map fst (segmentPrefetchMap s) in
      fold (\<lambda>i s'.
              if \<not> list_ex (\<lambda>r. initSegmentReference r = Some i) segmentReferences
              then abortPrefetchedSegment s' (InitSegmentReference i) else s')
        (map fst (initSegmentPrefetchMap s)) s)"

definition prefetchInitSegment ::
  "segment_prefetch \<Rightarrow> init_segment_reference \<Rightarrow> error + segment_prefetch" where
  "prefetchInitSegment s i =
     (if \<not> prefetchLimit s > 0
      then Inl (AssertionError ''SegmentPrefetch can not be used when prefetchLimit <= 0.'')
      else if segmentIndex (stream s) = None then Inr s
      else if map_of (initSegmentPrefetchMap s) i = None
      then (let (a, s1) = dispatchFetch s (InitSegmentReference i)
            in Inr (s1\<lparr>initSegmentPrefetchMap := AList.update i a (initSegmentPrefetchMap s1)\<rparr>))
      else Inr s)"

text \<open>
  The body of one round of the scan loop of \<^verbatim>\<open>prefetchSegmentsByTime\<close>, up to
  and including the update of the position.
\<close>

definition prefetch_visit ::
  "segment_prefetch \<Rightarrow> segment_reference \<Rightarrow> error + segment_prefetch" where
  "prefetch_visit s r =
     (let prefetchAllowed =
            (\<not> (isPreload r \<and> endByte r \<noteq> None) \<and> getStatus r \<noteq> MISSING)
      in case (if prefetchAllowed
               then (case initSegmentReference r of
                       None \<Rightarrow> Inr s
                     | Some i \<Rightarrow> prefetchInitSegment s i)
               else Inr s) of
           Inl e \<Rightarrow> Inl e
         | Inr s1 \<Rightarrow>
             (let s2 = (if prefetchAllowed \<and> map_of (segmentPrefetchMap s1) r = None
                        then (let (a, s') = dispatchFetch s1 (SegmentReference r)
                              in s'\<lparr>segmentPrefetchMap :=
                                      AList.update r a (segmentPrefetchMap s')\<rparr>)
                        else s1)
              in Inr (s2\<lparr>prefetchPosTime := startTime r, scanned := scanned s2 @ [r]\<rparr>)))"

text \<open>
  The scan loop. The list is the current reference followed by what the iterator still
  holds; the empty list is \<^verbatim>\<open>reference == null\<close>.
\<close>

fun prefetch_loop ::
  "segment_prefetch \<Rightarrow> segment_reference list \<Rightarrow> error + segment_prefetch" where
  "prefetch_loop s [] = Inr s"
| "prefetch_loop s (r # iterator) =
     (if \<not> real (length (segmentPrefetchMap s)) < prefetchLimit s then Inr s
      else case prefetch_visit s r of
             Inl e \<Rightarrow> Inl e
           | Inr s' \<Rightarrow>
               if fastSwitching (stream s') \<and> isPartial r \<and> isLastPartial r then Inr s'
               else prefetch_loop s' iterator)"

text \<open>
  \<^verbatim>\<open>prefetchSegmentsByTime\<close>. \<^verbatim>\<open>iterator.next().value\<close> of an exhausted
  iterator is \<^verbatim>\<open>undefined\<close> again, as \<open>tl [] = []\<close>.
\<close>

definition prefetchSegmentsByTime ::
  "segment_prefetch \<Rightarrow> real \<Rightarrow> bool \<Rightarrow> error + segment_prefetch" where
  "prefetchSegmentsByTime s currTime skipFirst =
     (if \<not> prefetchLimit s > 0
      then Inl (AssertionError ''SegmentPrefetch can not be used when prefetchLimit <= 0.'')
      else case segmentIndex (stream s) of
        None \<Rightarrow> Inr s
      | Some index \<Rightarrow>
          (let maxTime = max currTime (prefetchPosTime s) in
           case index maxTime True of
             None \<Rightarrow> Inr s
           | Some iterator \<Rightarrow>
               (let refs = (if skipFirst then tl iterator else iterator) in
                if refs = [] then Inr s
                else case prefetch_loop s refs of
                       Inl e \<Rightarrow> Inl e
                     | Inr s' \<Rightarrow> Inr (clearInitSegments s'))))"

text \<open>
  \<^verbatim>\<open>getPrefetchedSegment\<close>: the result is what the method returns
  (\<open>None\<close> is \<^verbatim>\<open>null\<close>) and the new state.
\<close>

definition getPrefetchedSegment ::
  "segment_prefetch \<Rightarrow> reference \<Rightarrow> stream_data_callback option
     \<Rightarrow> error + (pending_request option \<times> segment_prefetch)" where
  "getPrefetchedSegment s ref cb =
     (if \<not> prefetchLimit s > 0
      then Inl (AssertionError ''SegmentPrefetch can not be used when prefetchLimit <= 0.'')
      else case ref of
        InitSegmentReference i \<Rightarrow>
          (case map_of (initSegmentPrefetchMap s) i of
             None \<Rightarrow> Inr (None, s)
           | Some a \<Rightarrow>
               (let s1 = (case cb of
                            None \<Rightarrow> s
                          | Some c \<Rightarrow>
                              update_operation s a (\<lambda>opn. setStreamDataCallback opn (Some c)));
                    s2 = (if deleteOnGet_fld s1
                          then s1\<lparr>initSegmentPrefetchMap :=
                                    AList.delete i (initSegmentPrefetchMap s1)\<rparr>
                          else s1)
                in Inr (Option.bind (operation_at s2 a) getOperation, s2)))
      | SegmentReference r \<Rightarrow>
          (case map_of (segmentPrefetchMap s) r of
             None \<Rightarrow> Inr (None, s)
           | Some a \<Rightarrow>
               (let s1 = (case cb of
                            None \<Rightarrow> s
                          | Some c \<Rightarrow>
                              update_operation s a (\<lambda>opn. setStreamDataCallback opn (Some c)));
                    s2 = (if deleteOnGet_fld s1
                          then s1\<lparr>segmentPrefetchMap :=
                                    AList.delete r (segmentPrefetchMap s1)\<rparr>
                          else s1)
                in Inr (Option.bind (operation_at s2 a) getOperation, s2))))"

text \<open>\<^verbatim>\<open>clearMap_\<close>, given the keys of the map it is called with.\<close>

definition clearMap :: "segment_prefetch \<Rightarrow> reference list \<Rightarrow> segment_prefetch" where
  "clearMap s keys = fold (\<lambda>ref s'. abortPrefetchedSegment s' ref) keys s"

definition clearAll :: "segment_prefetch \<Rightarrow> segment_prefetch" where
  "clearAll s =
     (let s1 = clearMap s (map (SegmentReference \<circ> fst) (segmentPrefetchMap s));
          s2 = clearMap s1 (map (InitSegmentReference \<circ> fst) (initSegmentPrefetchMap s1))
      in s2\<lparr>prefetchPosTime := 0\<rparr>)"

definition evict :: "segment_prefetch \<Rightarrow> real \<Rightarrow> segment_prefetch" where
  "evict s time =
     clearInitSegments
       (fold (\<lambda>ref s'. if time > endTime ref
                       then abortPrefetchedSegment s' (SegmentReference ref) else s')
          (map fst (segmentPrefetchMap s)) s)"

text \<open>
  The \<^verbatim>\<open>while\<close> loop of \<^verbatim>\<open>resetLimit\<close> over the copied key array.
  \<^verbatim>\<open>pop()\<close> of an empty array gives \<^verbatim>\<open>undefined\<close> and leaves the array
  empty, and nothing is aborted then: with an empty array and a negative limit the loop
  never ends, which is the value \<open>None\<close>.
\<close>

partial_function (option) resetLimit_loop ::
  "segment_prefetch \<Rightarrow> segment_reference list \<Rightarrow> real \<Rightarrow> segment_prefetch option" where
  "resetLimit_loop s keyArr newPrefetchLimit =
     (if real (length keyArr) > newPrefetchLimit
      then (if keyArr = []
            then resetLimit_loop s keyArr newPrefetchLimit
            else resetLimit_loop (abortPrefetchedSegment s (SegmentReference (last keyArr)))
                   (butlast keyArr) newPrefetchLimit)
      else Some s)"

definition resetLimit :: "segment_prefetch \<Rightarrow> real \<Rightarrow> error + segment_prefetch" where
  "resetLimit s newPrefetchLimit =
     (if \<not> newPrefetchLimit \<ge> 0
      then Inl (AssertionError ''The new prefetch limit must be >= 0.'')
      else (let s1 = s\<lparr>prefetchLimit := newPrefetchLimit\<rparr>;
                keyArr = map fst (segmentPrefetchMap s1)
            in case resetLimit_loop s1 keyArr newPrefetchLimit of
                 None \<Rightarrow> Inl NoReturn
               | Some s2 \<Rightarrow> Inr (clearInitSegments s2)))"

definition deleteOnGet :: "segment_prefetch \<Rightarrow> bool \<Rightarrow> segment_prefetch" where
  "deleteOnGet s newDeleteOnGet = s\<lparr>deleteOnGet_fld := newDeleteOnGet\<rparr>"

definition switchStream :: "segment_prefetch \<Rightarrow> stream option \<Rightarrow> error + segment_prefetch" where
  "switchStream s st =
     (if \<not> deleteOnGet_fld s
      then Inl (AssertionError ''switchStream should only be used if deleteOnGet is true'')
      else case st of
        None \<Rightarrow> Inr s
      | Some st' \<Rightarrow> if st' \<noteq> stream s then Inr ((clearAll s)\<lparr>stream := st'\<rparr>) else Inr s)"

definition getStream :: "segment_prefetch \<Rightarrow> stream" where
  "getStream s = stream s"

section \<open>Sequences of calls\<close>

datatype command =
  ReplaceFetchDispatcher fetch_dispatcher
| PrefetchSegmentsByTime real bool
| PrefetchInitSegment init_segment_reference
| GetPrefetchedSegment reference "stream_data_callback option"
| ClearAll
| Evict real
| ResetLimit real
| DeleteOnGet bool
| SwitchStream "stream option"

fun call :: "segment_prefetch \<Rightarrow> command \<Rightarrow> error + segment_prefetch" where
  "call s (ReplaceFetchDispatcher d) = Inr (replaceFetchDispatcher s d)"
| "call s (PrefetchSegmentsByTime t skipFirst) = prefetchSegmentsByTime s t skipFirst"
| "call s (PrefetchInitSegment i) = prefetchInitSegment s i"
| "call s (GetPrefetchedSegment ref cb) = map_sum id snd (getPrefetchedSegment s ref cb)"
| "call s ClearAll = Inr (clearAll s)"
| "call s (Evict t) = Inr (evict s t)"
| "call s (ResetLimit n) = resetLimit s n"
| "call s (DeleteOnGet b) = Inr (deleteOnGet s b)"
| "call s (SwitchStream st) = switchStream s st"

text \<open>
  Every assertion is the first statement of its method, so a call that fails its assertion
  has changed nothing and the caller goes on with the same object. (No call gives
  \<open>NoReturn\<close>: \<^verbatim>\<open>resetLimit\<close> enters its loop with a limit that is not negative.)
\<close>

fun calls :: "segment_prefetch \<Rightarrow> command list \<Rightarrow> segment_prefetch" where
  "calls s [] = s"
| "calls s (c # cs) = calls (case call s c of Inl e \<Rightarrow> s | Inr s' \<Rightarrow> s') cs"

section \<open>Notions used to state the properties\<close>

text \<open>
  The calls of \<^verbatim>\<open>PendingRequest.abort\<close> that aborting the operation at an
  address makes (none when the operation holds no pending request), and those made for a
  list of table entries, in the order of the list.
\<close>

definition request_at :: "segment_prefetch_operation list \<Rightarrow> nat \<Rightarrow> pending_request list" where
  "request_at ops a =
     (if a < length ops then (case operation (ops ! a) of None \<Rightarrow> [] | Some h \<Rightarrow> [h]) else [])"

definition requests_of ::
  "segment_prefetch_operation list \<Rightarrow> ('k \<times> nat) list \<Rightarrow> pending_request list" where
  "requests_of ops entries = concat (map (\<lambda>(k, a). request_at ops a) entries)"

text \<open>
  An init segment reference is referenced when it is the
  \<^verbatim>\<open>initSegmentReference\<close> of a key of the media table.
\<close>

definition referenced :: "segment_prefetch \<Rightarrow> init_segment_reference \<Rightarrow> bool" where
  "referenced s i =
     list_ex (\<lambda>r. initSegmentReference r = Some i) (map fst (segmentPrefetchMap s))"

text \<open>
  A \<^verbatim>\<open>Map\<close> holds a key once. The association lists of a state that stands for
  an object of the program therefore have distinct keys.
\<close>

definition maps_ok :: "segment_prefetch \<Rightarrow> bool" where
  "maps_ok s \<longleftrightarrow>
     distinct (map fst (segmentPrefetchMap s)) \<and> distinct (map fst (initSegmentPrefetchMap s))"

text \<open>The entry of a reference in the table of its kind.\<close>

definition entry_of :: "segment_prefetch \<Rightarrow> reference \<Rightarrow> nat option" where
  "entry_of s ref =
     (case ref of
        SegmentReference r \<Rightarrow> map_of (segmentPrefetchMap s) r
      | InitSegmentReference i \<Rightarrow> map_of (initSegmentPrefetchMap s) i)"

text \<open>
  Modelled from the spec: the contract of the segment index, which is not among the
  sources (sections 2 and 6 of the specification). An iterator for a time yields references
  in the order of their start times, none of which starts before that time.
\<close>

definition index_contract :: "stream \<Rightarrow> bool" where
  "index_contract st \<longleftrightarrow>
     (\<forall>index t refs. segmentIndex st = Some index \<longrightarrow> index t True = Some refs \<longrightarrow>
        sorted (map startTime refs) \<and> (\<forall>r \<in> set refs. t \<le> startTime r))"

text \<open>
  A call runs \<^verbatim>\<open>clearAll\<close>: it is \<^verbatim>\<open>clearAll\<close> itself or a
  \<^verbatim>\<open>switchStream\<close> to another stream. \<open>no_clearAll s cs\<close>: none of the calls
  \<open>cs\<close>, made one after the other from \<open>s\<close>, does.
\<close>

fun runs_clearAll :: "segment_prefetch \<Rightarrow> command \<Rightarrow> bool" where
  "runs_clearAll s ClearAll = True"
| "runs_clearAll s (SwitchStream (Some st)) = (deleteOnGet_fld s \<and> st \<noteq> stream s)"
| "runs_clearAll s c = False"

fun no_clearAll :: "segment_prefetch \<Rightarrow> command list \<Rightarrow> bool" where
  "no_clearAll s [] = True"
| "no_clearAll s (c # cs) =
     (\<not> runs_clearAll s c \<and> no_clearAll (case call s c of Inl e \<Rightarrow> s | Inr s' \<Rightarrow> s') cs)"

section \<open>Example objects\<close>

text \<open>
  Three media segments that share one init segment, a stream over them, and the
  prefetcher after \<^verbatim>\<open>prefetchSegmentsByTime(0)\<close> with a limit of two.
\<close>

definition I1 :: init_segment_reference where
  "I1 = InitRef 1"

definition R1 :: segment_reference where
  "R1 = \<lparr>seg_ident = 1, startTime = 0, endTime = 2, getStatus = AVAILABLE, isPreload = False,
          isPartial = False, isLastPartial = False, endByte = None,
          initSegmentReference = Some I1\<rparr>"

definition R2 :: segment_reference where
  "R2 = \<lparr>seg_ident = 2, startTime = 2, endTime = 4, getStatus = AVAILABLE, isPreload = False,
          isPartial = False, isLastPartial = False, endByte = None,
          initSegmentReference = Some I1\<rparr>"

definition R3 :: segment_reference where
  "R3 = \<lparr>seg_ident = 3, startTime = 4, endTime = 6, getStatus = AVAILABLE, isPreload = False,
          isPartial = False, isLastPartial = False, endByte = None,
          initSegmentReference = Some I1\<rparr>"

definition example_index :: segment_index where
  "example_index t allowNonIndependent = Some (filter (\<lambda>r. t \<le> startTime r) [R1, R2, R3])"

definition example_stream :: stream where
  "example_stream =
     \<lparr>stream_id = 1, stream_type = ''video'', fastSwitching = False,
      segmentIndex = Some example_index\<rparr>"

definition example_prefetch :: segment_prefetch where
  "example_prefetch =
     calls (new_SegmentPrefetch 2 example_stream 1 False) [PrefetchSegmentsByTime 0 False]"

text \<open>An operation that has received two chunks and has no consumer yet.\<close>

definition example_operation :: segment_prefetch_operation where
  "example_operation =
     onData_all (op_dispatchFetch (new_SegmentPrefetchOperation 1) 0) [ [1], [2] ]"

section \<open>Lemmas\<close>

subsection \<open>Folds\<close>

lemma fold_preserves:
  "(\<And>x s. f (g x s) = f s) \<Longrightarrow> f (fold g xs s) = f s"
  by (induction xs arbitrary: s) simp_all

lemma fold_invariant:
  "(\<And>x s. Q s \<Longrightarrow> Q (g x s)) \<Longrightarrow> Q s \<Longrightarrow> Q (fold g xs s)"
  by (induction xs arbitrary: s) simp_all

subsection \<open>Aborting\<close>

lemma requests_of_Nil [simp]: "requests_of ops [] = []"
  by (simp add: requests_of_def)

lemma requests_of_Cons [simp]:
  "requests_of ops ((k, a) # es) = request_at ops a @ requests_of ops es"
  by (simp add: requests_of_def)

lemma requests_of_append [simp]:
  "requests_of ops (es @ es') = requests_of ops es @ requests_of ops es'"
  by (simp add: requests_of_def)

lemma abort_eq: "abort s a = s\<lparr>aborted := aborted s @ request_at (operations s) a\<rparr>"
  by (simp add: abort_def operation_at_def request_at_def split: option.splits)

lemma abortPrefetchedSegment_Segment:
  "abortPrefetchedSegment s (SegmentReference r) =
     s\<lparr>segmentPrefetchMap := AList.delete r (segmentPrefetchMap s),
       aborted := aborted s @ (case map_of (segmentPrefetchMap s) r of
                                 None \<Rightarrow> [] | Some a \<Rightarrow> request_at (operations s) a)\<rparr>"
  by (simp add: abortPrefetchedSegment_def abort_eq split: option.splits)

lemma abortPrefetchedSegment_Init:
  "abortPrefetchedSegment s (InitSegmentReference i) =
     s\<lparr>initSegmentPrefetchMap := AList.delete i (initSegmentPrefetchMap s),
       aborted := aborted s @ (case map_of (initSegmentPrefetchMap s) i of
                                 None \<Rightarrow> [] | Some a \<Rightarrow> request_at (operations s) a)\<rparr>"
  by (simp add: abortPrefetchedSegment_def abort_eq split: option.splits)

lemma abortPrefetchedSegment_fields [simp]:
  "prefetchLimit (abortPrefetchedSegment s ref) = prefetchLimit s"
  "stream (abortPrefetchedSegment s ref) = stream s"
  "prefetchPosTime (abortPrefetchedSegment s ref) = prefetchPosTime s"
  "fetchDispatcher (abortPrefetchedSegment s ref) = fetchDispatcher s"
  "deleteOnGet_fld (abortPrefetchedSegment s ref) = deleteOnGet_fld s"
  "operations (abortPrefetchedSegment s ref) = operations s"
  "dispatched (abortPrefetchedSegment s ref) = dispatched s"
  "scanned (abortPrefetchedSegment s ref) = scanned s"
  by (cases ref; simp add: abortPrefetchedSegment_Segment abortPrefetchedSegment_Init)+

lemma abortPrefetchedSegment_maps [simp]:
  "segmentPrefetchMap (abortPrefetchedSegment s (SegmentReference r)) =
     AList.delete r (segmentPrefetchMap s)"
  "initSegmentPrefetchMap (abortPrefetchedSegment s (SegmentReference r)) =
     initSegmentPrefetchMap s"
  "segmentPrefetchMap (abortPrefetchedSegment s (InitSegmentReference i)) =
     segmentPrefetchMap s"
  "initSegmentPrefetchMap (abortPrefetchedSegment s (InitSegmentReference i)) =
     AList.delete i (initSegmentPrefetchMap s)"
  by (simp_all add: abortPrefetchedSegment_Segment abortPrefetchedSegment_Init)

lemma maps_ok_abortPrefetchedSegment: "maps_ok s \<Longrightarrow> maps_ok (abortPrefetchedSegment s ref)"
  by (cases ref) (simp_all add: maps_ok_def distinct_delete)

lemma map_of_distinct_entries:
  "distinct (map fst m) \<Longrightarrow> \<forall>(k, a) \<in> set m. map_of m k = Some a"
  by auto

lemma filter_delete_keys:
  "P k \<Longrightarrow> filter (\<lambda>(r, a). \<not> (P r \<and> r \<in> K)) (AList.delete k m) =
     filter (\<lambda>(r, a). \<not> (P r \<and> r \<in> insert k K)) m"
  by (induction m) (auto simp: AList.delete_eq)

lemma fold_abort_segments_gen:
  assumes "distinct (map fst es)"
    and "\<forall>(k, a) \<in> set es. map_of (segmentPrefetchMap s) k = Some a"
  shows "fold (\<lambda>r s'. if P r then abortPrefetchedSegment s' (SegmentReference r) else s')
           (map fst es) s =
         s\<lparr>segmentPrefetchMap :=
             filter (\<lambda>(r, a). \<not> (P r \<and> r \<in> fst ` set es)) (segmentPrefetchMap s),
           aborted := aborted s @ requests_of (operations s) (filter (\<lambda>(r, a). P r) es)\<rparr>"
  using assms
proof (induction es arbitrary: s)
  case Nil
  then show ?case by simp
next
  case (Cons e es)
  obtain k a where e: "e = (k, a)" by (cases e)
  from Cons.prems e have ka: "map_of (segmentPrefetchMap s) k = Some a"
    and knot: "k \<notin> fst ` set es" and dist: "distinct (map fst es)" by auto
  show ?case
  proof (cases "P k")
    case False
    have "filter (\<lambda>(r, a). \<not> (P r \<and> r \<in> fst ` set (e # es))) (segmentPrefetchMap s)
        = filter (\<lambda>(r, a). \<not> (P r \<and> r \<in> fst ` set es)) (segmentPrefetchMap s)"
      using False e by (intro filter_cong) auto
    with False e Cons.IH[OF dist, of s] Cons.prems(2) show ?thesis by simp
  next
    case True
    let ?s1 = "abortPrefetchedSegment s (SegmentReference k)"
    have s1: "?s1 = s\<lparr>segmentPrefetchMap := AList.delete k (segmentPrefetchMap s),
                      aborted := aborted s @ request_at (operations s) a\<rparr>"
      by (simp add: abortPrefetchedSegment_Segment ka)
    have rest: "\<And>k' a'. (k', a') \<in> set es \<Longrightarrow>
        map_of (segmentPrefetchMap s) k' = Some a' \<and> k' \<noteq> k"
      using Cons.prems(2) knot by (force simp: e)
    have pres: "\<forall>(k', a') \<in> set es. map_of (segmentPrefetchMap ?s1) k' = Some a'"
      using rest by (auto simp: s1 delete_conv)
    have flt: "filter (\<lambda>(r, a). \<not> (P r \<and> r \<in> fst ` set es))
                 (AList.delete k (segmentPrefetchMap s))
        = filter (\<lambda>(r, a). \<not> (P r \<and> r \<in> fst ` set (e # es))) (segmentPrefetchMap s)"
      using filter_delete_keys[of P k "fst ` set es" "segmentPrefetchMap s"] True e by simp
    show ?thesis
      using Cons.IH[OF dist pres] True e flt by (simp add: s1)
  qed
qed

lemma fold_abort_segments:
  assumes "distinct (map fst (segmentPrefetchMap s))"
  shows "fold (\<lambda>r s'. if P r then abortPrefetchedSegment s' (SegmentReference r) else s')
           (map fst (segmentPrefetchMap s)) s =
         s\<lparr>segmentPrefetchMap := filter (\<lambda>(r, a). \<not> P r) (segmentPrefetchMap s),
           aborted := aborted s @
             requests_of (operations s) (filter (\<lambda>(r, a). P r) (segmentPrefetchMap s))\<rparr>"
proof -
  have "filter (\<lambda>(r, a). \<not> (P r \<and> r \<in> fst ` set (segmentPrefetchMap s)))
          (segmentPrefetchMap s)
      = filter (\<lambda>(r, a). \<not> P r) (segmentPrefetchMap s)"
    by (intro filter_cong) force+
  then show ?thesis
    using fold_abort_segments_gen[OF assms map_of_distinct_entries[OF assms], of P] by simp
qed

lemma fold_abort_inits_gen:
  assumes "distinct (map fst es)"
    and "\<forall>(k, a) \<in> set es. map_of (initSegmentPrefetchMap s) k = Some a"
  shows "fold (\<lambda>i s'. if P i then abortPrefetchedSegment s' (InitSegmentReference i) else s')
           (map fst es) s =
         s\<lparr>initSegmentPrefetchMap :=
             filter (\<lambda>(i, a). \<not> (P i \<and> i \<in> fst ` set es)) (initSegmentPrefetchMap s),
           aborted := aborted s @ requests_of (operations s) (filter (\<lambda>(i, a). P i) es)\<rparr>"
  using assms
proof (induction es arbitrary: s)
  case Nil
  then show ?case by simp
next
  case (Cons e es)
  obtain k a where e: "e = (k, a)" by (cases e)
  from Cons.prems e have ka: "map_of (initSegmentPrefetchMap s) k = Some a"
    and knot: "k \<notin> fst ` set es" and dist: "distinct (map fst es)" by auto
  show ?case
  proof (cases "P k")
    case False
    have "filter (\<lambda>(r, a). \<not> (P r \<and> r \<in> fst ` set (e # es))) (initSegmentPrefetchMap s)
        = filter (\<lambda>(r, a). \<not> (P r \<and> r \<in> fst ` set es)) (initSegmentPrefetchMap s)"
      using False e by (intro filter_cong) auto
    with False e Cons.IH[OF dist, of s] Cons.prems(2) show ?thesis by simp
  next
    case True
    let ?s1 = "abortPrefetchedSegment s (InitSegmentReference k)"
    have s1: "?s1 = s\<lparr>initSegmentPrefetchMap := AList.delete k (initSegmentPrefetchMap s),
                      aborted := aborted s @ request_at (operations s) a\<rparr>"
      by (simp add: abortPrefetchedSegment_Init ka)
    have rest: "\<And>k' a'. (k', a') \<in> set es \<Longrightarrow>
        map_of (initSegmentPrefetchMap s) k' = Some a' \<and> k' \<noteq> k"
      using Cons.prems(2) knot by (force simp: e)
    have pres: "\<forall>(k', a') \<in> set es. map_of (initSegmentPrefetchMap ?s1) k' = Some a'"
      using rest by (auto simp: s1 delete_conv)
    have flt: "filter (\<lambda>(r, a). \<not> (P r \<and> r \<in> fst ` set es))
                 (AList.delete k (initSegmentPrefetchMap s))
        = filter (\<lambda>(r, a). \<not> (P r \<and> r \<in> fst ` set (e # es))) (initSegmentPrefetchMap s)"
      using filter_delete_keys[of P k "fst ` set es" "initSegmentPrefetchMap s"] True e by simp
    show ?thesis
      using Cons.IH[OF dist pres] True e flt by (simp add: s1)
  qed
qed

lemma fold_abort_inits:
  assumes "distinct (map fst (initSegmentPrefetchMap s))"
  shows "fold (\<lambda>i s'. if P i then abortPrefetchedSegment s' (InitSegmentReference i) else s')
           (map fst (initSegmentPrefetchMap s)) s =
         s\<lparr>initSegmentPrefetchMap := filter (\<lambda>(i, a). \<not> P i) (initSegmentPrefetchMap s),
           aborted := aborted s @
             requests_of (operations s) (filter (\<lambda>(i, a). P i) (initSegmentPrefetchMap s))\<rparr>"
proof -
  have "filter (\<lambda>(r, a). \<not> (P r \<and> r \<in> fst ` set (initSegmentPrefetchMap s)))
          (initSegmentPrefetchMap s)
      = filter (\<lambda>(r, a). \<not> P r) (initSegmentPrefetchMap s)"
    by (intro filter_cong) force+
  then show ?thesis
    using fold_abort_inits_gen[OF assms map_of_distinct_entries[OF assms], of P] by simp
qed

subsection \<open>Pruning the init segments\<close>

lemma clearInitSegments_eq:
  assumes "distinct (map fst (initSegmentPrefetchMap s))"
  shows "clearInitSegments s =
     s\<lparr>initSegmentPrefetchMap := filter (\<lambda>(i, a). referenced s i) (initSegmentPrefetchMap s),
       aborted := aborted s @
         requests_of (operations s)
           (filter (\<lambda>(i, a). \<not> referenced s i) (initSegmentPrefetchMap s))\<rparr>"
  unfolding clearInitSegments_def Let_def
  using fold_abort_inits[OF assms, of "\<lambda>i. \<not> referenced s i"]
  by (simp add: referenced_def)

lemma clearInitSegments_fields [simp]:
  "prefetchLimit (clearInitSegments s) = prefetchLimit s"
  "stream (clearInitSegments s) = stream s"
  "prefetchPosTime (clearInitSegments s) = prefetchPosTime s"
  "fetchDispatcher (clearInitSegments s) = fetchDispatcher s"
  "deleteOnGet_fld (clearInitSegments s) = deleteOnGet_fld s"
  "operations (clearInitSegments s) = operations s"
  "dispatched (clearInitSegments s) = dispatched s"
  "scanned (clearInitSegments s) = scanned s"
  "segmentPrefetchMap (clearInitSegments s) = segmentPrefetchMap s"
  unfolding clearInitSegments_def Let_def
  by (rule fold_preserves, simp)+

lemma maps_ok_clearInitSegments: "maps_ok s \<Longrightarrow> maps_ok (clearInitSegments s)"
  unfolding clearInitSegments_def Let_def
  by (rule fold_invariant) (simp_all add: maps_ok_abortPrefetchedSegment)

subsection \<open>Chunks\<close>

lemma onData_all_Nil [simp]: "onData_all opn [] = opn"
  by (simp add: onData_all_def)

lemma onData_all_Cons [simp]:
  "onData_all opn (c # cs) = onData_all (dispatchFetch_onData opn c) cs"
  by (simp add: onData_all_def)

lemma onData_all_buffering:
  "streamDataCallback opn = None \<Longrightarrow>
     onData_all opn chunks = opn\<lparr>buffered := buffered opn @ concat chunks\<rparr>"
  by (induction chunks arbitrary: opn) (simp_all add: dispatchFetch_onData_def)

lemma onData_all_forwarding:
  "streamDataCallback opn = Some cb \<Longrightarrow> buffered opn = [] \<Longrightarrow>
     onData_all opn chunks = opn\<lparr>delivered := delivered opn @ map (Pair cb) chunks\<rparr>"
  by (induction chunks arbitrary: opn) (simp_all add: dispatchFetch_onData_def)

subsection \<open>Dispatching\<close>

lemma update_operation_fields [simp]:
  "prefetchLimit (update_operation s a f) = prefetchLimit s"
  "stream (update_operation s a f) = stream s"
  "prefetchPosTime (update_operation s a f) = prefetchPosTime s"
  "fetchDispatcher (update_operation s a f) = fetchDispatcher s"
  "deleteOnGet_fld (update_operation s a f) = deleteOnGet_fld s"
  "segmentPrefetchMap (update_operation s a f) = segmentPrefetchMap s"
  "initSegmentPrefetchMap (update_operation s a f) = initSegmentPrefetchMap s"
  "dispatched (update_operation s a f) = dispatched s"
  "aborted (update_operation s a f) = aborted s"
  "scanned (update_operation s a f) = scanned s"
  "length (operations (update_operation s a f)) = length (operations s)"
  by (simp_all add: update_operation_def split: option.splits)

lemma operations_update_operation:
  "operations (update_operation s a f) =
     (if a < length (operations s) then (operations s)[a := f (operations s ! a)] else operations s)"
  by (simp add: update_operation_def operation_at_def)

lemma replaceFetchDispatcher_fields [simp]:
  "prefetchLimit (replaceFetchDispatcher s d) = prefetchLimit s"
  "stream (replaceFetchDispatcher s d) = stream s"
  "prefetchPosTime (replaceFetchDispatcher s d) = prefetchPosTime s"
  "fetchDispatcher (replaceFetchDispatcher s d) = d"
  "deleteOnGet_fld (replaceFetchDispatcher s d) = deleteOnGet_fld s"
  "segmentPrefetchMap (replaceFetchDispatcher s d) = segmentPrefetchMap s"
  "initSegmentPrefetchMap (replaceFetchDispatcher s d) = initSegmentPrefetchMap s"
  "dispatched (replaceFetchDispatcher s d) = dispatched s"
  "aborted (replaceFetchDispatcher s d) = aborted s"
  "scanned (replaceFetchDispatcher s d) = scanned s"
  "length (operations (replaceFetchDispatcher s d)) = length (operations s)"
  unfolding replaceFetchDispatcher_def
  by (subst fold_preserves, simp, simp)+

lemma update_append_new: "map_of m k = None \<Longrightarrow> AList.update k v m = m @ [(k, v)]"
  by (induction m) (auto split: if_splits)

lemma prefetchInitSegment_Inr:
  assumes "prefetchInitSegment s i = Inr s'"
  shows "0 < prefetchLimit s \<and>
    (s' = s \<or>
     map_of (initSegmentPrefetchMap s) i = None \<and>
     s' = s\<lparr>initSegmentPrefetchMap := initSegmentPrefetchMap s @ [(i, length (operations s))],
            operations := operations s @
              [op_dispatchFetch (new_SegmentPrefetchOperation (fetchDispatcher s))
                 (length (dispatched s))],
            dispatched := dispatched s @
              [(fetchDispatcher s, InitSegmentReference i, stream s)]\<rparr>)"
  using assms
  by (auto simp: prefetchInitSegment_def dispatchFetch_def Let_def update_append_new
        new_SegmentPrefetchOperation_def op_dispatchFetch_def split: if_splits)

lemma prefetchInitSegment_no_error:
  "0 < prefetchLimit s \<Longrightarrow> \<exists>s'. prefetchInitSegment s i = Inr s'"
  by (simp add: prefetchInitSegment_def dispatchFetch_def Let_def)

lemma prefetchInitSegment_fields:
  assumes "prefetchInitSegment s i = Inr s'"
  shows "prefetchLimit s' = prefetchLimit s" "stream s' = stream s"
    "prefetchPosTime s' = prefetchPosTime s" "fetchDispatcher s' = fetchDispatcher s"
    "deleteOnGet_fld s' = deleteOnGet_fld s" "segmentPrefetchMap s' = segmentPrefetchMap s"
    "aborted s' = aborted s" "scanned s' = scanned s"
  using prefetchInitSegment_Inr[OF assms] by auto

text \<open>What one round of the loop does to the state.\<close>

lemma dispatch_segment_eq:
  "map_of (segmentPrefetchMap s) r = None \<Longrightarrow>
     (let (a, s') = dispatchFetch s (SegmentReference r)
      in s'\<lparr>segmentPrefetchMap := AList.update r a (segmentPrefetchMap s')\<rparr>) =
     s\<lparr>segmentPrefetchMap := segmentPrefetchMap s @ [(r, length (operations s))],
       operations := operations s @
         [op_dispatchFetch (new_SegmentPrefetchOperation (fetchDispatcher s))
            (length (dispatched s))],
       dispatched := dispatched s @ [(fetchDispatcher s, SegmentReference r, stream s)]\<rparr>"
  by (simp add: dispatchFetch_def Let_def update_append_new new_SegmentPrefetchOperation_def
      op_dispatchFetch_def)

lemma prefetch_visit_Inr:
  assumes "prefetch_visit s r = Inr s'"
  shows "\<exists>s1 s2.
    (s1 = s \<or> (\<exists>i. initSegmentReference r = Some i \<and> prefetchInitSegment s i = Inr s1)) \<and>
    (s2 = s1 \<or>
       map_of (segmentPrefetchMap s1) r = None \<and>
       s2 = s1\<lparr>segmentPrefetchMap := segmentPrefetchMap s1 @ [(r, length (operations s1))],
               operations := operations s1 @
                 [op_dispatchFetch (new_SegmentPrefetchOperation (fetchDispatcher s1))
                    (length (dispatched s1))],
               dispatched := dispatched s1 @
                 [(fetchDispatcher s1, SegmentReference r, stream s1)]\<rparr>) \<and>
    s' = s2\<lparr>prefetchPosTime := startTime r, scanned := scanned s2 @ [r]\<rparr>"
proof -
  define allowed where
    "allowed = (\<not> (isPreload r \<and> endByte r \<noteq> None) \<and> getStatus r \<noteq> MISSING)"
  define init_step where
    "init_step = (if allowed
                  then (case initSegmentReference r of
                          None \<Rightarrow> Inr s | Some i \<Rightarrow> prefetchInitSegment s i)
                  else Inr s)"
  from assms obtain s1 where s1: "init_step = Inr s1"
    and s': "s' = (if allowed \<and> map_of (segmentPrefetchMap s1) r = None
                   then (let (a, s'') = dispatchFetch s1 (SegmentReference r)
                         in s''\<lparr>segmentPrefetchMap :=
                                  AList.update r a (segmentPrefetchMap s'')\<rparr>)
                   else s1)\<lparr>prefetchPosTime := startTime r,
                            scanned := scanned (if allowed \<and> map_of (segmentPrefetchMap s1) r = None
                   then (let (a, s'') = dispatchFetch s1 (SegmentReference r)
                         in s''\<lparr>segmentPrefetchMap :=
                                  AList.update r a (segmentPrefetchMap s'')\<rparr>)
                   else s1) @ [r]\<rparr>"
    unfolding prefetch_visit_def Let_def allowed_def init_step_def
    by (cases "if \<not> (isPreload r \<and> endByte r \<noteq> None) \<and> getStatus r \<noteq> MISSING
                then case initSegmentReference r of None \<Rightarrow> Inr s
                     | Some i \<Rightarrow> prefetchInitSegment s i
                else Inr s") simp_all
  have one: "s1 = s \<or> (\<exists>i. initSegmentReference r = Some i \<and> prefetchInitSegment s i = Inr s1)"
    using s1 by (auto simp: init_step_def split: if_splits option.splits)
  show ?thesis
  proof (cases "allowed \<and> map_of (segmentPrefetchMap s1) r = None")
    case True
    then have none: "map_of (segmentPrefetchMap s1) r = None" by simp
    show ?thesis
      using one s' True dispatch_segment_eq[OF none] by (intro exI[of _ s1] exI) auto
  next
    case False
    show ?thesis
      using one s' False by (intro exI[of _ s1] exI[of _ s1]) auto
  qed
qed

lemma prefetchInitSegment_not_Inl: "0 < prefetchLimit s \<Longrightarrow> prefetchInitSegment s i \<noteq> Inl e"
  by (simp add: prefetchInitSegment_def dispatchFetch_def Let_def)

lemma prefetch_visit_not_Inl: "0 < prefetchLimit s \<Longrightarrow> prefetch_visit s r \<noteq> Inl e"
  by (auto simp: prefetch_visit_def Let_def prefetchInitSegment_not_Inl
      split: option.splits sum.splits)

lemma prefetch_visit_fields:
  assumes "prefetch_visit s r = Inr s'"
  shows "prefetchLimit s' = prefetchLimit s" "stream s' = stream s"
    "fetchDispatcher s' = fetchDispatcher s"
    "deleteOnGet_fld s' = deleteOnGet_fld s"
    "aborted s' = aborted s" "prefetchPosTime s' = startTime r"
    "scanned s' = scanned s @ [r]"
  using prefetch_visit_Inr[OF assms] by (auto dest: prefetchInitSegment_Inr)

lemma prefetch_visit_segmentPrefetchMap:
  assumes "prefetch_visit s r = Inr s'"
  shows "segmentPrefetchMap s' = segmentPrefetchMap s \<or>
     map_of (segmentPrefetchMap s) r = None \<and>
     (\<exists>a. segmentPrefetchMap s' = segmentPrefetchMap s @ [(r, a)])"
  using prefetch_visit_Inr[OF assms] by (auto dest: prefetchInitSegment_Inr)

lemma prefetch_visit_initSegmentPrefetchMap:
  assumes "prefetch_visit s r = Inr s'"
  shows "initSegmentPrefetchMap s' = initSegmentPrefetchMap s \<or>
     (\<exists>i a. map_of (initSegmentPrefetchMap s) i = None \<and>
         initSegmentPrefetchMap s' = initSegmentPrefetchMap s @ [(i, a)])"
  using prefetch_visit_Inr[OF assms] by (auto dest: prefetchInitSegment_Inr)

lemma distinct_append_new:
  "distinct (map fst m) \<Longrightarrow> map_of m k = None \<Longrightarrow> distinct (map fst (m @ [(k, v)]))"
  by (auto simp: map_of_eq_None_iff)

lemma maps_ok_prefetch_visit:
  assumes "prefetch_visit s r = Inr s'" "maps_ok s"
  shows "maps_ok s'"
  using prefetch_visit_segmentPrefetchMap[OF assms(1)]
    prefetch_visit_initSegmentPrefetchMap[OF assms(1)] assms(2)
  by (auto simp: maps_ok_def map_of_eq_None_iff)

subsection \<open>The scan loop\<close>

lemma prefetch_loop_not_Inl: "prefetch_loop s refs \<noteq> Inl e"
proof (induction refs arbitrary: s)
  case Nil
  then show ?case by simp
next
  case (Cons r refs)
  show ?case
  proof (cases "real (length (segmentPrefetchMap s)) < prefetchLimit s")
    case False
    then show ?thesis by simp
  next
    case True
    have "0 \<le> real (length (segmentPrefetchMap s))" by simp
    with True have "0 < prefetchLimit s" by linarith
    then show ?thesis
      using prefetch_visit_not_Inl[of s r] Cons.IH True
      by (auto split: sum.splits)
  qed
qed

lemma prefetch_loop_induct_rule:
  assumes "prefetch_loop s refs = Inr s'"
    and "Q s"
    and "\<And>s r s1. Q s \<Longrightarrow> real (length (segmentPrefetchMap s)) < prefetchLimit s \<Longrightarrow>
           prefetch_visit s r = Inr s1 \<Longrightarrow> Q s1"
  shows "Q s'"
  using assms(1,2)
proof (induction refs arbitrary: s)
  case Nil
  then show ?case by simp
next
  case (Cons r refs)
  show ?case
  proof (cases "real (length (segmentPrefetchMap s)) < prefetchLimit s")
    case False
    with Cons.prems show ?thesis by simp
  next
    case True
    with Cons.prems(1) obtain s1 where v: "prefetch_visit s r = Inr s1"
      and rest: "s' = s1 \<or> prefetch_loop s1 refs = Inr s'"
      by (auto split: sum.splits if_splits)
    have "Q s1" using assms(3)[OF Cons.prems(2) True v] .
    with rest Cons.IH show ?thesis by auto
  qed
qed

lemma prefetch_loop_fields:
  assumes "prefetch_loop s refs = Inr s'"
  shows "prefetchLimit s' = prefetchLimit s" "stream s' = stream s"
    "fetchDispatcher s' = fetchDispatcher s" "deleteOnGet_fld s' = deleteOnGet_fld s"
    "aborted s' = aborted s"
proof -
  have "prefetchLimit s' = prefetchLimit s \<and> stream s' = stream s \<and>
    fetchDispatcher s' = fetchDispatcher s \<and> deleteOnGet_fld s' = deleteOnGet_fld s \<and>
    aborted s' = aborted s"
    by (rule prefetch_loop_induct_rule[OF assms, where Q = "\<lambda>t. prefetchLimit t = prefetchLimit s \<and>
        stream t = stream s \<and> fetchDispatcher t = fetchDispatcher s \<and>
        deleteOnGet_fld t = deleteOnGet_fld s \<and> aborted t = aborted s"])
      (auto dest: prefetch_visit_fields)
  then show "prefetchLimit s' = prefetchLimit s" "stream s' = stream s"
    "fetchDispatcher s' = fetchDispatcher s" "deleteOnGet_fld s' = deleteOnGet_fld s"
    "aborted s' = aborted s" by simp_all
qed

lemma maps_ok_prefetch_loop:
  assumes "prefetch_loop s refs = Inr s'" "maps_ok s"
  shows "maps_ok s'"
  by (rule prefetch_loop_induct_rule[OF assms(1), where Q = maps_ok])
     (auto intro: assms(2) maps_ok_prefetch_visit)

text \<open>The loop adds an entry only while the table is below the limit.\<close>

lemma prefetch_loop_size:
  assumes "prefetch_loop s refs = Inr s'"
    and "real (length (segmentPrefetchMap s)) < prefetchLimit s + 1"
  shows "real (length (segmentPrefetchMap s')) < prefetchLimit s' + 1"
proof -
  have "real (length (segmentPrefetchMap s')) < prefetchLimit s' + 1 \<and> prefetchLimit s' = prefetchLimit s"
  proof (rule prefetch_loop_induct_rule[OF assms(1), where
        Q = "\<lambda>t. real (length (segmentPrefetchMap t)) < prefetchLimit t + 1 \<and> prefetchLimit t = prefetchLimit s"])
    show "real (length (segmentPrefetchMap s)) < prefetchLimit s + 1 \<and> prefetchLimit s = prefetchLimit s"
      using assms(2) by simp
  next
    fix t r t1
    assume q: "real (length (segmentPrefetchMap t)) < prefetchLimit t + 1 \<and> prefetchLimit t = prefetchLimit s"
      and lt: "real (length (segmentPrefetchMap t)) < prefetchLimit t"
      and v: "prefetch_visit t r = Inr t1"
    from prefetch_visit_segmentPrefetchMap[OF v] prefetch_visit_fields(1)[OF v] q lt
    show "real (length (segmentPrefetchMap t1)) < prefetchLimit t1 + 1 \<and> prefetchLimit t1 = prefetchLimit s"
      by auto
  qed
  then show ?thesis by simp
qed

text \<open>
  The position and the scanned references, when the references come in the order of their
  start times and none starts before the position.
\<close>

lemma prefetch_loop_position:
  assumes "prefetch_loop s refs = Inr s'"
    and "sorted (map startTime refs)"
    and "\<forall>r \<in> set refs. prefetchPosTime s \<le> startTime r"
  shows "prefetchPosTime s \<le> prefetchPosTime s' \<and>
    (\<exists>new. scanned s' = scanned s @ new \<and> (\<forall>r \<in> set new. startTime r \<le> prefetchPosTime s'))"
  using assms
proof (induction refs arbitrary: s)
  case Nil
  then show ?case by simp
next
  case (Cons r refs)
  show ?case
  proof (cases "real (length (segmentPrefetchMap s)) < prefetchLimit s")
    case False
    with Cons.prems show ?thesis by simp
  next
    case True
    with Cons.prems(1) obtain s1 where v: "prefetch_visit s r = Inr s1"
      and rest: "s' = s1 \<or> prefetch_loop s1 refs = Inr s'"
      by (auto split: sum.splits if_splits)
    have p1: "prefetchPosTime s1 = startTime r" and sc1: "scanned s1 = scanned s @ [r]"
      using prefetch_visit_fields[OF v] by simp_all
    have le: "prefetchPosTime s \<le> startTime r" using Cons.prems(3) by simp
    from rest show ?thesis
    proof
      assume "s' = s1"
      with p1 sc1 le show ?thesis by simp
    next
      assume loop: "prefetch_loop s1 refs = Inr s'"
      have srt: "sorted (map startTime refs)" using Cons.prems(2) by simp
      have lb: "\<forall>r' \<in> set refs. prefetchPosTime s1 \<le> startTime r'"
        using Cons.prems(2) p1 by simp
      from Cons.IH[OF loop srt lb] obtain new where
        mono: "prefetchPosTime s1 \<le> prefetchPosTime s'" and
        new: "scanned s' = scanned s1 @ new" "\<forall>r \<in> set new. startTime r \<le> prefetchPosTime s'"
        by auto
      have "scanned s' = scanned s @ (r # new)" using new(1) sc1 by simp
      moreover have "\<forall>r' \<in> set (r # new). startTime r' \<le> prefetchPosTime s'"
        using new(2) mono p1 by simp
      moreover have "prefetchPosTime s \<le> prefetchPosTime s'" using le p1 mono by simp
      ultimately show ?thesis by blast
    qed
  qed
qed

subsection \<open>Entries that are already there\<close>

lemma map_of_append_Some: "map_of m k = Some a \<Longrightarrow> map_of (m @ m') k = Some a"
  by (simp add: map_add_Some_iff)

lemma prefetchInitSegment_present:
  assumes "prefetchInitSegment s i = Inr s'" "entry_of s ref = Some a"
  shows "entry_of s' ref = Some a \<and>
    filter (\<lambda>x. fst (snd x) = ref) (dispatched s') = filter (\<lambda>x. fst (snd x) = ref) (dispatched s) \<and>
    (\<exists>more. operations s' = operations s @ more)"
  using prefetchInitSegment_Inr[OF assms(1)] assms(2)
  by (cases ref) (auto simp: entry_of_def map_of_append_Some)

lemma prefetch_visit_present:
  assumes "prefetch_visit s r = Inr s'" "entry_of s ref = Some a"
  shows "entry_of s' ref = Some a \<and>
    filter (\<lambda>x. fst (snd x) = ref) (dispatched s') = filter (\<lambda>x. fst (snd x) = ref) (dispatched s) \<and>
    (\<exists>more. operations s' = operations s @ more)"
proof -
  from prefetch_visit_Inr[OF assms(1)] obtain s1 s2 where
    one: "s1 = s \<or> (\<exists>i. initSegmentReference r = Some i \<and> prefetchInitSegment s i = Inr s1)"
    and two: "s2 = s1 \<or>
       map_of (segmentPrefetchMap s1) r = None \<and>
       s2 = s1\<lparr>segmentPrefetchMap := segmentPrefetchMap s1 @ [(r, length (operations s1))],
               operations := operations s1 @
                 [op_dispatchFetch (new_SegmentPrefetchOperation (fetchDispatcher s1))
                    (length (dispatched s1))],
               dispatched := dispatched s1 @
                 [(fetchDispatcher s1, SegmentReference r, stream s1)]\<rparr>"
    and three: "s' = s2\<lparr>prefetchPosTime := startTime r, scanned := scanned s2 @ [r]\<rparr>"
    by blast
  have p1: "entry_of s1 ref = Some a \<and>
    filter (\<lambda>x. fst (snd x) = ref) (dispatched s1) = filter (\<lambda>x. fst (snd x) = ref) (dispatched s) \<and>
    (\<exists>more. operations s1 = operations s @ more)"
    using one assms(2) prefetchInitSegment_present by auto
  have p2: "entry_of s2 ref = Some a \<and>
    filter (\<lambda>x. fst (snd x) = ref) (dispatched s2) = filter (\<lambda>x. fst (snd x) = ref) (dispatched s1) \<and>
    (\<exists>more. operations s2 = operations s1 @ more)"
    using two p1 by (cases ref) (auto simp: entry_of_def map_of_append_Some)
  have p3: "entry_of s' ref = entry_of s2 ref" "dispatched s' = dispatched s2"
    "operations s' = operations s2"
    using three by (simp_all add: entry_of_def split: reference.splits)
  from p1 p2 p3 show ?thesis by auto
qed

lemma prefetch_loop_present:
  assumes "prefetch_loop s refs = Inr s'" "entry_of s ref = Some a"
  shows "entry_of s' ref = Some a \<and>
    filter (\<lambda>x. fst (snd x) = ref) (dispatched s') = filter (\<lambda>x. fst (snd x) = ref) (dispatched s) \<and>
    (\<exists>more. operations s' = operations s @ more)"
proof (rule prefetch_loop_induct_rule[OF assms(1), where
      Q = "\<lambda>t. entry_of t ref = Some a \<and>
        filter (\<lambda>x. fst (snd x) = ref) (dispatched t) = filter (\<lambda>x. fst (snd x) = ref) (dispatched s) \<and>
        (\<exists>more. operations t = operations s @ more)"])
  show "entry_of s ref = Some a \<and>
    filter (\<lambda>x. fst (snd x) = ref) (dispatched s) = filter (\<lambda>x. fst (snd x) = ref) (dispatched s) \<and>
    (\<exists>more. operations s = operations s @ more)"
    using assms(2) by simp
next
  fix t r t1
  assume q: "entry_of t ref = Some a \<and>
        filter (\<lambda>x. fst (snd x) = ref) (dispatched t) = filter (\<lambda>x. fst (snd x) = ref) (dispatched s) \<and>
        (\<exists>more. operations t = operations s @ more)"
    and v: "prefetch_visit t r = Inr t1"
  from q have e: "entry_of t ref = Some a" by simp
  from prefetch_visit_present[OF v e] q
  show "entry_of t1 ref = Some a \<and>
        filter (\<lambda>x. fst (snd x) = ref) (dispatched t1) = filter (\<lambda>x. fst (snd x) = ref) (dispatched s) \<and>
        (\<exists>more. operations t1 = operations s @ more)"
    by auto
qed

subsection \<open>Clearing\<close>

lemma clearMap_fields [simp]:
  "prefetchLimit (clearMap s ks) = prefetchLimit s"
  "stream (clearMap s ks) = stream s"
  "prefetchPosTime (clearMap s ks) = prefetchPosTime s"
  "fetchDispatcher (clearMap s ks) = fetchDispatcher s"
  "deleteOnGet_fld (clearMap s ks) = deleteOnGet_fld s"
  "operations (clearMap s ks) = operations s"
  "dispatched (clearMap s ks) = dispatched s"
  "scanned (clearMap s ks) = scanned s"
  unfolding clearMap_def
  by (rule fold_preserves, simp)+

lemma clearAll_fields [simp]:
  "prefetchLimit (clearAll s) = prefetchLimit s"
  "stream (clearAll s) = stream s"
  "prefetchPosTime (clearAll s) = 0"
  "fetchDispatcher (clearAll s) = fetchDispatcher s"
  "deleteOnGet_fld (clearAll s) = deleteOnGet_fld s"
  "operations (clearAll s) = operations s"
  "dispatched (clearAll s) = dispatched s"
  "scanned (clearAll s) = scanned s"
  by (simp_all add: clearAll_def Let_def)

lemma clearMap_segments:
  assumes "distinct (map fst (segmentPrefetchMap s))"
  shows "clearMap s (map (SegmentReference \<circ> fst) (segmentPrefetchMap s)) =
     s\<lparr>segmentPrefetchMap := [],
       aborted := aborted s @ requests_of (operations s) (segmentPrefetchMap s)\<rparr>"
proof -
  have "clearMap s (map (SegmentReference \<circ> fst) (segmentPrefetchMap s)) =
      fold (\<lambda>r s'. if True then abortPrefetchedSegment s' (SegmentReference r) else s')
        (map fst (segmentPrefetchMap s)) s"
    by (simp add: clearMap_def fold_map comp_def)
  also have "\<dots> = s\<lparr>segmentPrefetchMap := filter (\<lambda>(r, a). \<not> True) (segmentPrefetchMap s),
       aborted := aborted s @
         requests_of (operations s) (filter (\<lambda>(r, a). True) (segmentPrefetchMap s))\<rparr>"
    by (rule fold_abort_segments[OF assms])
  finally show ?thesis by simp
qed

lemma clearMap_inits:
  assumes "distinct (map fst (initSegmentPrefetchMap s))"
  shows "clearMap s (map (InitSegmentReference \<circ> fst) (initSegmentPrefetchMap s)) =
     s\<lparr>initSegmentPrefetchMap := [],
       aborted := aborted s @ requests_of (operations s) (initSegmentPrefetchMap s)\<rparr>"
proof -
  have "clearMap s (map (InitSegmentReference \<circ> fst) (initSegmentPrefetchMap s)) =
      fold (\<lambda>r s'. if True then abortPrefetchedSegment s' (InitSegmentReference r) else s')
        (map fst (initSegmentPrefetchMap s)) s"
    by (simp add: clearMap_def fold_map comp_def)
  also have "\<dots> = s\<lparr>initSegmentPrefetchMap := filter (\<lambda>(r, a). \<not> True) (initSegmentPrefetchMap s),
       aborted := aborted s @
         requests_of (operations s) (filter (\<lambda>(r, a). True) (initSegmentPrefetchMap s))\<rparr>"
    by (rule fold_abort_inits[OF assms])
  finally show ?thesis by simp
qed

lemma clearAll_eq:
  assumes "maps_ok s"
  shows "clearAll s =
     s\<lparr>segmentPrefetchMap := [], initSegmentPrefetchMap := [],
       aborted := aborted s @ requests_of (operations s) (segmentPrefetchMap s) @
                  requests_of (operations s) (initSegmentPrefetchMap s),
       prefetchPosTime := 0\<rparr>"
proof -
  from assms have d1: "distinct (map fst (segmentPrefetchMap s))"
    and d2: "distinct (map fst (initSegmentPrefetchMap s))" by (simp_all add: maps_ok_def)
  let ?s1 = "clearMap s (map (SegmentReference \<circ> fst) (segmentPrefetchMap s))"
  have s1: "?s1 = s\<lparr>segmentPrefetchMap := [],
       aborted := aborted s @ requests_of (operations s) (segmentPrefetchMap s)\<rparr>"
    by (rule clearMap_segments[OF d1])
  have d2': "distinct (map fst (initSegmentPrefetchMap ?s1))" using d2 by (simp add: s1)
  show ?thesis
    unfolding clearAll_def Let_def
    by (subst clearMap_inits[OF d2']) (simp add: s1)
qed

subsection \<open>Evicting\<close>

lemma evict_segments_eq:
  assumes "distinct (map fst (segmentPrefetchMap s))"
  shows "fold (\<lambda>ref s'. if time > endTime ref
                       then abortPrefetchedSegment s' (SegmentReference ref) else s')
          (map fst (segmentPrefetchMap s)) s =
     s\<lparr>segmentPrefetchMap := filter (\<lambda>(r, a). \<not> endTime r < time) (segmentPrefetchMap s),
       aborted := aborted s @
         requests_of (operations s) (filter (\<lambda>(r, a). endTime r < time) (segmentPrefetchMap s))\<rparr>"
  using fold_abort_segments[OF assms, of "\<lambda>r. endTime r < time"] by simp

lemma evict_fields [simp]:
  "prefetchLimit (evict s t) = prefetchLimit s"
  "stream (evict s t) = stream s"
  "prefetchPosTime (evict s t) = prefetchPosTime s"
  "fetchDispatcher (evict s t) = fetchDispatcher s"
  "deleteOnGet_fld (evict s t) = deleteOnGet_fld s"
  "operations (evict s t) = operations s"
  "dispatched (evict s t) = dispatched s"
  "scanned (evict s t) = scanned s"
  unfolding evict_def
  by (simp, rule fold_preserves, simp)+

lemma evict_eq:
  assumes "maps_ok s"
  shows "evict s time =
     s\<lparr>segmentPrefetchMap := filter (\<lambda>(r, a). \<not> endTime r < time) (segmentPrefetchMap s),
       initSegmentPrefetchMap :=
         filter (\<lambda>(i, a). list_ex (\<lambda>r. initSegmentReference r = Some i)
                    (map fst (filter (\<lambda>(r, a). \<not> endTime r < time) (segmentPrefetchMap s))))
           (initSegmentPrefetchMap s),
       aborted := aborted s @
         requests_of (operations s) (filter (\<lambda>(r, a). endTime r < time) (segmentPrefetchMap s)) @
         requests_of (operations s)
           (filter (\<lambda>(i, a). \<not> list_ex (\<lambda>r. initSegmentReference r = Some i)
                      (map fst (filter (\<lambda>(r, a). \<not> endTime r < time) (segmentPrefetchMap s))))
              (initSegmentPrefetchMap s))\<rparr>"
proof -
  from assms have d1: "distinct (map fst (segmentPrefetchMap s))"
    and d2: "distinct (map fst (initSegmentPrefetchMap s))" by (simp_all add: maps_ok_def)
  let ?s1 = "s\<lparr>segmentPrefetchMap := filter (\<lambda>(r, a). \<not> endTime r < time) (segmentPrefetchMap s),
       aborted := aborted s @
         requests_of (operations s) (filter (\<lambda>(r, a). endTime r < time) (segmentPrefetchMap s))\<rparr>"
  have e: "evict s time = clearInitSegments ?s1"
    unfolding evict_def by (simp only: evict_segments_eq[OF d1])
  have d2': "distinct (map fst (initSegmentPrefetchMap ?s1))" using d2 by simp
  show ?thesis
    unfolding e by (subst clearInitSegments_eq[OF d2']) (simp add: referenced_def)
qed

subsection \<open>Shrinking to a new limit\<close>

lemma filter_delete_drop:
  "filter (\<lambda>(r, a). r \<notin> K) (AList.delete k m) = filter (\<lambda>(r, a). r \<notin> insert k K) m"
  by (induction m) (auto simp: AList.delete_eq)

text \<open>A length against a limit that need not be whole.\<close>

lemma length_gt_limit_iff:
  assumes "0 \<le> (n :: real)"
  shows "real k > n \<longleftrightarrow> k > nat \<lfloor>n\<rfloor>"
proof -
  have "n < real k \<longleftrightarrow> \<lfloor>n\<rfloor> < int k" by (simp add: floor_less_iff)
  also have "\<dots> \<longleftrightarrow> nat \<lfloor>n\<rfloor> < k" using assms by (simp add: nat_less_iff)
  finally show ?thesis .
qed

lemma real_nat_floor_le: "0 \<le> (n :: real) \<Longrightarrow> real (nat \<lfloor>n\<rfloor>) \<le> n"
  by (simp add: of_nat_nat)

lemma whole_limit_bound:
  assumes "(z :: real) \<in> \<int>" and "real k < z + 1"
  shows "real k \<le> z"
proof -
  from assms(1) obtain i where i: "z = of_int i" by (auto elim: Ints_cases)
  from assms(2) have "real_of_int (int k) < real_of_int (i + 1)" by (simp add: i)
  then have "int k < i + 1" by (simp only: of_int_less_iff)
  then have "int k \<le> i" by simp
  then have "real_of_int (int k) \<le> real_of_int i" by (simp only: of_int_le_iff)
  then show ?thesis by (simp add: i)
qed

lemma whole_limit_min:
  assumes "0 \<le> (n :: real)"
  shows "n \<in> \<int> \<longrightarrow> real (min (nat \<lfloor>n\<rfloor>) k) = min n (real k)"
proof
  assume "n \<in> \<int>"
  then obtain i where i: "n = of_int i" by (auto elim: Ints_cases)
  with assms have "0 \<le> i" by simp
  then have "real (nat \<lfloor>n\<rfloor>) = n" by (simp add: i)
  then show "real (min (nat \<lfloor>n\<rfloor>) k) = min n (real k)" by (simp only: of_nat_min)
qed

lemma resetLimit_loop_gen:
  assumes "distinct (map fst es)"
    and "\<forall>(k, a) \<in> set es. map_of (segmentPrefetchMap s) k = Some a"
    and "0 \<le> n"
  shows "resetLimit_loop s (map fst es) n = Some
     (s\<lparr>segmentPrefetchMap :=
         filter (\<lambda>(r, a). r \<notin> fst ` set (drop (nat \<lfloor>n\<rfloor>) es)) (segmentPrefetchMap s),
       aborted := aborted s @ requests_of (operations s) (rev (drop (nat \<lfloor>n\<rfloor>) es))\<rparr>)"
  using assms(1,2)
proof (induction es arbitrary: s rule: rev_induct)
  case Nil
  show ?case using assms(3) by (subst resetLimit_loop.simps) simp
next
  case (snoc e es)
  obtain k a where e: "e = (k, a)" by (cases e)
  from snoc.prems e have ka: "map_of (segmentPrefetchMap s) k = Some a"
    and knot: "k \<notin> fst ` set es" and dist: "distinct (map fst es)" by auto
  show ?case
  proof (cases "real (length (es @ [e])) > n")
    case False
    then have "drop (nat \<lfloor>n\<rfloor>) (es @ [e]) = []"
      using length_gt_limit_iff[OF assms(3), of "length (es @ [e])"] by simp
    with False show ?thesis
      by (subst resetLimit_loop.simps) simp
  next
    case True
    then have nle: "nat \<lfloor>n\<rfloor> \<le> length es"
      using length_gt_limit_iff[OF assms(3), of "length (es @ [e])"] by simp
    let ?s1 = "abortPrefetchedSegment s (SegmentReference k)"
    have s1: "?s1 = s\<lparr>segmentPrefetchMap := AList.delete k (segmentPrefetchMap s),
                      aborted := aborted s @ request_at (operations s) a\<rparr>"
      by (simp add: abortPrefetchedSegment_Segment ka)
    have rest: "\<And>k' a'. (k', a') \<in> set es \<Longrightarrow>
        map_of (segmentPrefetchMap s) k' = Some a' \<and> k' \<noteq> k"
      using snoc.prems(2) knot by (force simp: e)
    have pres: "\<forall>(k', a') \<in> set es. map_of (segmentPrefetchMap ?s1) k' = Some a'"
      using rest by (auto simp: s1 delete_conv)
    have step: "resetLimit_loop s (map fst (es @ [e])) n = resetLimit_loop ?s1 (map fst es) n"
      using True e by (subst resetLimit_loop.simps) simp
    have dr: "drop (nat \<lfloor>n\<rfloor>) (es @ [e]) = drop (nat \<lfloor>n\<rfloor>) es @ [(k, a)]"
      using nle e by simp
    show ?thesis
      unfolding step snoc.IH[OF dist pres] dr
      by (simp add: s1 filter_delete_drop)
  qed
qed

lemma filter_keys_drop:
  "distinct (map fst m) \<Longrightarrow> filter (\<lambda>(r, a). r \<notin> fst ` set (drop n m)) m = take n m"
proof (induction m arbitrary: n)
  case Nil
  then show ?case by simp
next
  case (Cons x m)
  show ?case
  proof (cases n)
    case 0
    then show ?thesis by (force simp: filter_empty_conv image_iff)
  next
    case (Suc j)
    have nx: "fst x \<notin> fst ` set (drop j m)"
      using Cons.prems by (auto dest!: in_set_dropD)
    have "filter (\<lambda>(r, a). r \<notin> fst ` set (drop j m)) m = take j m"
      using Cons.IH[of j] Cons.prems by simp
    with nx Suc show ?thesis by (cases x) simp
  qed
qed

lemma resetLimit_loop_eq:
  assumes "distinct (map fst (segmentPrefetchMap s))" "0 \<le> n"
  shows "resetLimit_loop s (map fst (segmentPrefetchMap s)) n = Some
     (s\<lparr>segmentPrefetchMap := take (nat \<lfloor>n\<rfloor>) (segmentPrefetchMap s),
       aborted := aborted s @
         requests_of (operations s) (rev (drop (nat \<lfloor>n\<rfloor>) (segmentPrefetchMap s)))\<rparr>)"
  using resetLimit_loop_gen[OF assms(1) map_of_distinct_entries[OF assms(1)] assms(2)]
  by (simp add: filter_keys_drop[OF assms(1)])

lemma resetLimit_eq:
  assumes "maps_ok s" "0 \<le> n"
  shows "resetLimit s n = Inr
     (s\<lparr>prefetchLimit := n,
        segmentPrefetchMap := take (nat \<lfloor>n\<rfloor>) (segmentPrefetchMap s),
        initSegmentPrefetchMap :=
          filter (\<lambda>(i, a). list_ex (\<lambda>r. initSegmentReference r = Some i)
                     (map fst (take (nat \<lfloor>n\<rfloor>) (segmentPrefetchMap s))))
            (initSegmentPrefetchMap s),
        aborted := aborted s @
          requests_of (operations s) (rev (drop (nat \<lfloor>n\<rfloor>) (segmentPrefetchMap s))) @
          requests_of (operations s)
            (filter (\<lambda>(i, a). \<not> list_ex (\<lambda>r. initSegmentReference r = Some i)
                       (map fst (take (nat \<lfloor>n\<rfloor>) (segmentPrefetchMap s))))
               (initSegmentPrefetchMap s))\<rparr>)"
proof -
  from assms have d1: "distinct (map fst (segmentPrefetchMap s))"
    and d2: "distinct (map fst (initSegmentPrefetchMap s))" by (simp_all add: maps_ok_def)
  let ?s0 = "s\<lparr>prefetchLimit := n\<rparr>"
  have d1': "distinct (map fst (segmentPrefetchMap ?s0))" using d1 by simp
  let ?s1 = "s\<lparr>prefetchLimit := n,
       segmentPrefetchMap := take (nat \<lfloor>n\<rfloor>) (segmentPrefetchMap s),
       aborted := aborted s @
         requests_of (operations s) (rev (drop (nat \<lfloor>n\<rfloor>) (segmentPrefetchMap s)))\<rparr>"
  have s1: "resetLimit_loop ?s0 (map fst (segmentPrefetchMap s)) n = Some ?s1"
    using resetLimit_loop_eq[OF d1' assms(2)] by simp
  have d2': "distinct (map fst (initSegmentPrefetchMap ?s1))" using d2 by simp
  have "resetLimit s n = Inr (clearInitSegments ?s1)"
    unfolding resetLimit_def Let_def using assms(2) s1 by simp
  also have "clearInitSegments ?s1 = ?s1\<lparr>initSegmentPrefetchMap :=
         filter (\<lambda>(i, a). referenced ?s1 i) (initSegmentPrefetchMap ?s1),
       aborted := aborted ?s1 @
         requests_of (operations ?s1)
           (filter (\<lambda>(i, a). \<not> referenced ?s1 i) (initSegmentPrefetchMap ?s1))\<rparr>"
    by (rule clearInitSegments_eq[OF d2'])
  finally show ?thesis by (simp add: referenced_def)
qed

lemma resetLimit_Inr_nonneg: "resetLimit s n = Inr s' \<Longrightarrow> 0 \<le> n"
  by (auto simp: resetLimit_def split: if_splits)

text \<open>The loop ends when the limit is not negative, and it touches the media table only.\<close>

lemma resetLimit_loop_total:
  assumes "0 \<le> n"
  shows "\<exists>s'. resetLimit_loop s ks n = Some s' \<and>
    prefetchLimit s' = prefetchLimit s \<and> stream s' = stream s \<and>
    prefetchPosTime s' = prefetchPosTime s \<and> fetchDispatcher s' = fetchDispatcher s \<and>
    deleteOnGet_fld s' = deleteOnGet_fld s \<and> operations s' = operations s \<and>
    dispatched s' = dispatched s \<and> scanned s' = scanned s \<and>
    initSegmentPrefetchMap s' = initSegmentPrefetchMap s"
proof (induction ks arbitrary: s rule: rev_induct)
  case Nil
  show ?case using assms by (subst resetLimit_loop.simps) simp
next
  case (snoc k ks)
  show ?case
  proof (cases "real (length (ks @ [k])) > n")
    case False
    then show ?thesis by (subst resetLimit_loop.simps) simp
  next
    case True
    have step: "resetLimit_loop s (ks @ [k]) n =
        resetLimit_loop (abortPrefetchedSegment s (SegmentReference k)) ks n"
      using True by (subst resetLimit_loop.simps) simp
    from snoc.IH[of "abortPrefetchedSegment s (SegmentReference k)"] show ?thesis
      unfolding step by simp
  qed
qed

lemma resetLimit_not_NoReturn: "resetLimit s n \<noteq> Inl NoReturn"
  using resetLimit_loop_total[of n "s\<lparr>prefetchLimit := n\<rparr>" "map fst (segmentPrefetchMap s)"]
  by (auto simp: resetLimit_def Let_def)

lemma resetLimit_fields:
  assumes "resetLimit s n = Inr s'"
  shows "stream s' = stream s" "prefetchPosTime s' = prefetchPosTime s"
    "fetchDispatcher s' = fetchDispatcher s" "deleteOnGet_fld s' = deleteOnGet_fld s"
    "operations s' = operations s" "dispatched s' = dispatched s" "scanned s' = scanned s"
proof -
  from assms have n: "0 \<le> n" by (rule resetLimit_Inr_nonneg)
  from resetLimit_loop_total[OF n, of "s\<lparr>prefetchLimit := n\<rparr>" "map fst (segmentPrefetchMap s)"]
  obtain s2 where l: "resetLimit_loop (s\<lparr>prefetchLimit := n\<rparr>) (map fst (segmentPrefetchMap s)) n = Some s2"
    and f: "stream s2 = stream s" "prefetchPosTime s2 = prefetchPosTime s"
    "fetchDispatcher s2 = fetchDispatcher s" "deleteOnGet_fld s2 = deleteOnGet_fld s"
    "operations s2 = operations s" "dispatched s2 = dispatched s" "scanned s2 = scanned s"
    by auto
  from assms n l have s': "s' = clearInitSegments s2" by (simp add: resetLimit_def Let_def)
  show "stream s' = stream s" "prefetchPosTime s' = prefetchPosTime s"
    "fetchDispatcher s' = fetchDispatcher s" "deleteOnGet_fld s' = deleteOnGet_fld s"
    "operations s' = operations s" "dispatched s' = dispatched s" "scanned s' = scanned s"
    unfolding s' using f by simp_all
qed

subsection \<open>The methods, one by one\<close>

lemma prefetchSegmentsByTime_Inr:
  assumes "prefetchSegmentsByTime s t k = Inr s'"
  shows "0 < prefetchLimit s \<and>
    (s' = s \<or>
     (\<exists>index it s1. segmentIndex (stream s) = Some index \<and>
        index (max t (prefetchPosTime s)) True = Some it \<and>
        (if k then tl it else it) \<noteq> [] \<and>
        prefetch_loop s (if k then tl it else it) = Inr s1 \<and> s' = clearInitSegments s1))"
  using assms
  by (auto simp: prefetchSegmentsByTime_def Let_def split: if_splits option.splits sum.splits)

lemma prefetchSegmentsByTime_not_Inl:
  "0 < prefetchLimit s \<Longrightarrow> prefetchSegmentsByTime s t k \<noteq> Inl e"
  by (auto simp: prefetchSegmentsByTime_def Let_def prefetch_loop_not_Inl
      split: option.splits sum.splits)

lemma getPrefetchedSegment_Inr:
  assumes "getPrefetchedSegment s ref cb = Inr (res, s')"
  shows "0 < prefetchLimit s \<and> prefetchLimit s' = prefetchLimit s \<and> stream s' = stream s \<and>
    prefetchPosTime s' = prefetchPosTime s \<and> fetchDispatcher s' = fetchDispatcher s \<and>
    deleteOnGet_fld s' = deleteOnGet_fld s \<and> dispatched s' = dispatched s \<and>
    aborted s' = aborted s \<and> scanned s' = scanned s \<and>
    length (operations s') = length (operations s) \<and>
    (segmentPrefetchMap s' = segmentPrefetchMap s \<or>
       (\<exists>r. segmentPrefetchMap s' = AList.delete r (segmentPrefetchMap s))) \<and>
    (initSegmentPrefetchMap s' = initSegmentPrefetchMap s \<or>
       (\<exists>i. initSegmentPrefetchMap s' = AList.delete i (initSegmentPrefetchMap s)))"
  using assms
  by (cases ref; cases cb)
     (auto simp: getPrefetchedSegment_def Let_def split: if_splits option.splits)

lemma switchStream_Inr:
  assumes "switchStream s st = Inr s'"
  shows "deleteOnGet_fld s \<and>
    (s' = s \<or> (\<exists>st'. st = Some st' \<and> st' \<noteq> stream s \<and> s' = (clearAll s)\<lparr>stream := st'\<rparr>))"
  using assms by (auto simp: switchStream_def split: if_splits option.splits)

lemma maps_ok_evict: "maps_ok s \<Longrightarrow> maps_ok (evict s t)"
  unfolding evict_def
  by (intro maps_ok_clearInitSegments fold_invariant[where Q = maps_ok])
     (simp_all add: maps_ok_abortPrefetchedSegment)

lemma maps_ok_clearAll: "maps_ok s \<Longrightarrow> maps_ok (clearAll s)"
  by (subst clearAll_eq) (simp_all add: maps_ok_def)

lemma maps_ok_new [simp]: "maps_ok (new_SegmentPrefetch limit st d dog)"
  by (simp add: maps_ok_def new_SegmentPrefetch_def)

lemma call_maps_ok:
  assumes "maps_ok s" "call s c = Inr s'"
  shows "maps_ok s'"
proof (cases c)
  case (ReplaceFetchDispatcher d)
  with assms show ?thesis by (auto simp: maps_ok_def)
next
  case (PrefetchSegmentsByTime t k)
  with assms(2) have "prefetchSegmentsByTime s t k = Inr s'" by simp
  from prefetchSegmentsByTime_Inr[OF this] assms(1) show ?thesis
    by (auto intro: maps_ok_clearInitSegments maps_ok_prefetch_loop)
next
  case (PrefetchInitSegment i)
  with assms(2) have "prefetchInitSegment s i = Inr s'" by simp
  from prefetchInitSegment_Inr[OF this] assms(1) show ?thesis
    by (auto simp: maps_ok_def map_of_eq_None_iff)
next
  case (GetPrefetchedSegment ref cb)
  with assms(2) obtain res where "getPrefetchedSegment s ref cb = Inr (res, s')"
    by (cases "getPrefetchedSegment s ref cb") auto
  from getPrefetchedSegment_Inr[OF this] assms(1) show ?thesis
    by (auto simp: maps_ok_def distinct_delete)
next
  case ClearAll
  with assms show ?thesis by (auto simp: maps_ok_clearAll)
next
  case (Evict t)
  with assms show ?thesis by (auto simp: maps_ok_evict)
next
  case (ResetLimit n)
  with assms(2) have r: "resetLimit s n = Inr s'" by simp
  then have "0 \<le> n" by (rule resetLimit_Inr_nonneg)
  from resetLimit_eq[OF assms(1) this] r assms(1) show ?thesis
    by (auto simp: maps_ok_def distinct_map_filter distinct_take take_map[symmetric])
next
  case (DeleteOnGet b)
  with assms show ?thesis by (auto simp: maps_ok_def deleteOnGet_def)
next
  case (SwitchStream st)
  with assms(2) have "switchStream s st = Inr s'" by simp
  from switchStream_Inr[OF this] maps_ok_clearAll[OF assms(1)] assms(1) show ?thesis
    by (auto simp: maps_ok_def)
qed

text \<open>Every call returns or fails an assertion.\<close>

lemma call_not_NoReturn: "call s c \<noteq> Inl NoReturn"
proof (cases c)
  case (PrefetchSegmentsByTime t k)
  then show ?thesis
    by (auto simp: prefetchSegmentsByTime_def Let_def prefetch_loop_not_Inl
        split: option.splits sum.splits)
next
  case (PrefetchInitSegment i)
  then show ?thesis by (simp add: prefetchInitSegment_def dispatchFetch_def Let_def)
next
  case (GetPrefetchedSegment ref cb)
  then show ?thesis
    by (cases ref) (auto simp: getPrefetchedSegment_def Let_def split: option.splits)
next
  case (ResetLimit n)
  then show ?thesis by (simp add: resetLimit_not_NoReturn)
next
  case (SwitchStream st)
  then show ?thesis by (auto simp: switchStream_def split: option.splits)
qed simp_all

text \<open>The size of the media table against the limit.\<close>

lemma length_delete_le: "length (AList.delete k m) \<le> length m"
  by (simp add: AList.delete_eq)

lemma call_size:
  assumes "maps_ok s"
    and "segmentPrefetchMap s = [] \<or> real (length (segmentPrefetchMap s)) < prefetchLimit s + 1"
    and "call s c = Inr s'"
  shows "segmentPrefetchMap s' = [] \<or> real (length (segmentPrefetchMap s')) < prefetchLimit s' + 1"
proof (cases c)
  case (ReplaceFetchDispatcher d)
  with assms show ?thesis by auto
next
  case (PrefetchSegmentsByTime t k)
  with assms(3) have p: "prefetchSegmentsByTime s t k = Inr s'" by simp
  from prefetchSegmentsByTime_Inr[OF p] have pos: "0 < prefetchLimit s" by simp
  with assms(2) have le: "real (length (segmentPrefetchMap s)) < prefetchLimit s + 1" by auto
  from prefetchSegmentsByTime_Inr[OF p] le show ?thesis
    by (auto dest: prefetch_loop_size)
next
  case (PrefetchInitSegment i)
  with assms(3) have "prefetchInitSegment s i = Inr s'" by simp
  from prefetchInitSegment_fields[OF this] assms(2) show ?thesis by simp
next
  case (GetPrefetchedSegment ref cb)
  with assms(3) obtain res where "getPrefetchedSegment s ref cb = Inr (res, s')"
    by (cases "getPrefetchedSegment s ref cb") auto
  from getPrefetchedSegment_Inr[OF this]
  have "length (segmentPrefetchMap s') \<le> length (segmentPrefetchMap s)"
    and "prefetchLimit s' = prefetchLimit s"
    using length_delete_le[of _ "segmentPrefetchMap s"] by auto
  with assms(2) show ?thesis by auto
next
  case ClearAll
  with assms show ?thesis by (auto simp: clearAll_eq)
next
  case (Evict t)
  with assms(3) have s': "s' = evict s t" by simp
  have "length (segmentPrefetchMap (evict s t)) \<le> length (segmentPrefetchMap s)"
    by (subst evict_eq[OF assms(1)]) simp
  with assms(2) show ?thesis unfolding s' by auto
next
  case (ResetLimit n)
  with assms(3) have r: "resetLimit s n = Inr s'" by simp
  then have n: "0 \<le> n" by (rule resetLimit_Inr_nonneg)
  have "real (length (take (nat \<lfloor>n\<rfloor>) (segmentPrefetchMap s))) \<le> real (nat \<lfloor>n\<rfloor>)"
    by simp
  with real_nat_floor_le[OF n]
  have "real (length (take (nat \<lfloor>n\<rfloor>) (segmentPrefetchMap s))) < n + 1" by linarith
  with resetLimit_eq[OF assms(1) n] r show ?thesis by auto
next
  case (DeleteOnGet b)
  with assms show ?thesis by (auto simp: deleteOnGet_def)
next
  case (SwitchStream st)
  with assms(3) have "switchStream s st = Inr s'" by simp
  from switchStream_Inr[OF this] assms(1,2) show ?thesis
    by (auto simp: clearAll_eq)
qed

lemma calls_invariant:
  assumes "maps_ok s"
    and "segmentPrefetchMap s = [] \<or> real (length (segmentPrefetchMap s)) < prefetchLimit s + 1"
  shows "maps_ok (calls s cs) \<and>
    (segmentPrefetchMap (calls s cs) = [] \<or>
       real (length (segmentPrefetchMap (calls s cs))) < prefetchLimit (calls s cs) + 1)"
  using assms
proof (induction cs arbitrary: s)
  case Nil
  then show ?case by simp
next
  case (Cons c cs)
  show ?case
  proof (cases "call s c")
    case (Inl e)
    with Cons show ?thesis by simp
  next
    case (Inr s1)
    from call_maps_ok[OF Cons.prems(1) Inr] call_size[OF Cons.prems Inr] Cons.IH[of s1] Inr
    show ?thesis by simp
  qed
qed

subsection \<open>The example prefetcher\<close>

lemmas example_defs =
  new_SegmentPrefetch_def example_stream_def example_index_def R1_def R2_def R3_def I1_def
  prefetchSegmentsByTime_def prefetch_visit_def prefetchInitSegment_def dispatchFetch_def
  clearInitSegments_def abortPrefetchedSegment_def abort_def operation_at_def
  new_SegmentPrefetchOperation_def op_dispatchFetch_def

lemma example_prefetch_eq:
  "example_prefetch =
     \<lparr>prefetchLimit = 2, stream = example_stream, prefetchPosTime = 2, fetchDispatcher = 1,
      deleteOnGet_fld = False,
      segmentPrefetchMap = [(R1, 1), (R2, 2)],
      initSegmentPrefetchMap = [(I1, 0)],
      operations =
        [\<lparr>op_fetchDispatcher = 1, streamDataCallback = None, operation = Some 0,
          buffered = [], delivered = []\<rparr>,
         \<lparr>op_fetchDispatcher = 1, streamDataCallback = None, operation = Some 1,
          buffered = [], delivered = []\<rparr>,
         \<lparr>op_fetchDispatcher = 1, streamDataCallback = None, operation = Some 2,
          buffered = [], delivered = []\<rparr>],
      dispatched =
        [(1, InitSegmentReference I1, example_stream), (1, SegmentReference R1, example_stream),
         (1, SegmentReference R2, example_stream)],
      aborted = [], scanned = [R1, R2]\<rparr>"
  unfolding example_prefetch_def by (simp add: example_defs)

lemma example_refs_distinct [simp]:
  "R1 \<noteq> R2" "R2 \<noteq> R1" "R1 \<noteq> R3" "R3 \<noteq> R1" "R2 \<noteq> R3" "R3 \<noteq> R2"
  by (simp_all add: R1_def R2_def R3_def)

lemma example_refs_fields [simp]:
  "startTime R1 = 0" "startTime R2 = 2" "startTime R3 = 4"
  "endTime R1 = 2" "endTime R2 = 4" "endTime R3 = 6"
  "initSegmentReference R1 = Some I1" "initSegmentReference R2 = Some I1"
  "initSegmentReference R3 = Some I1"
  by (simp_all add: R1_def R2_def R3_def)

lemma maps_ok_example [simp]: "maps_ok example_prefetch"
  by (simp add: example_prefetch_eq maps_ok_def)

lemma example_prefetch_fields [simp]:
  "prefetchLimit example_prefetch = 2"
  "stream example_prefetch = example_stream"
  "prefetchPosTime example_prefetch = 2"
  "fetchDispatcher example_prefetch = 1"
  "deleteOnGet_fld example_prefetch = False"
  "segmentPrefetchMap example_prefetch = [(R1, 1), (R2, 2)]"
  "initSegmentPrefetchMap example_prefetch = [(I1, 0)]"
  "operations example_prefetch =
        [\<lparr>op_fetchDispatcher = 1, streamDataCallback = None, operation = Some 0,
          buffered = [], delivered = []\<rparr>,
         \<lparr>op_fetchDispatcher = 1, streamDataCallback = None, operation = Some 1,
          buffered = [], delivered = []\<rparr>,
         \<lparr>op_fetchDispatcher = 1, streamDataCallback = None, operation = Some 2,
          buffered = [], delivered = []\<rparr>]"
  "dispatched example_prefetch =
        [(1, InitSegmentReference I1, example_stream), (1, SegmentReference R1, example_stream),
         (1, SegmentReference R2, example_stream)]"
  "aborted example_prefetch = []"
  "scanned example_prefetch = [R1, R2]"
  by (simp_all add: example_prefetch_eq)

subsection \<open>The position\<close>

lemma prefetch_visit_dispatched:
  assumes "prefetch_visit s r = Inr s'"
  shows "\<exists>ds. dispatched s' = dispatched s @ ds \<and>
    (\<forall>x \<in> set ds. \<forall>r'. fst (snd x) = SegmentReference r' \<longrightarrow> r' = r)"
  using prefetch_visit_Inr[OF assms] by (auto dest!: prefetchInitSegment_Inr)

lemma prefetch_loop_dispatched:
  assumes "prefetch_loop s refs = Inr s'"
  shows "\<exists>new nd. scanned s' = scanned s @ new \<and> dispatched s' = dispatched s @ nd \<and>
    (\<forall>x \<in> set nd. \<forall>r. fst (snd x) = SegmentReference r \<longrightarrow> r \<in> set new)"
proof (rule prefetch_loop_induct_rule[OF assms, where
      Q = "\<lambda>t. \<exists>new nd. scanned t = scanned s @ new \<and> dispatched t = dispatched s @ nd \<and>
        (\<forall>x \<in> set nd. \<forall>r. fst (snd x) = SegmentReference r \<longrightarrow> r \<in> set new)"])
  show "\<exists>new nd. scanned s = scanned s @ new \<and> dispatched s = dispatched s @ nd \<and>
        (\<forall>x \<in> set nd. \<forall>r. fst (snd x) = SegmentReference r \<longrightarrow> r \<in> set new)"
    by simp
next
  fix t r t1
  assume "\<exists>new nd. scanned t = scanned s @ new \<and> dispatched t = dispatched s @ nd \<and>
        (\<forall>x \<in> set nd. \<forall>r. fst (snd x) = SegmentReference r \<longrightarrow> r \<in> set new)"
    and v: "prefetch_visit t r = Inr t1"
  then obtain new nd where q: "scanned t = scanned s @ new" "dispatched t = dispatched s @ nd"
    "\<forall>x \<in> set nd. \<forall>r. fst (snd x) = SegmentReference r \<longrightarrow> r \<in> set new" by blast
  from prefetch_visit_dispatched[OF v] obtain ds where
    ds: "dispatched t1 = dispatched t @ ds"
    "\<forall>x \<in> set ds. \<forall>r'. fst (snd x) = SegmentReference r' \<longrightarrow> r' = r" by blast
  have sc: "scanned t1 = scanned t @ [r]" using prefetch_visit_fields[OF v] by simp
  have "scanned t1 = scanned s @ (new @ [r])" using sc q(1) by simp
  moreover have "dispatched t1 = dispatched s @ (nd @ ds)" using ds(1) q(2) by simp
  moreover have "\<forall>x \<in> set (nd @ ds). \<forall>r'. fst (snd x) = SegmentReference r' \<longrightarrow> r' \<in> set (new @ [r])"
    using q(3) ds(2) by auto
  ultimately show "\<exists>new nd. scanned t1 = scanned s @ new \<and> dispatched t1 = dispatched s @ nd \<and>
        (\<forall>x \<in> set nd. \<forall>r. fst (snd x) = SegmentReference r \<longrightarrow> r \<in> set new)"
    by blast
qed

text \<open>
  What a state has gained over an earlier one: the position has not gone back, and every
  reference scanned and every media reference dispatched since starts at or before it.
\<close>

lemma gained_refl:
  "prefetchPosTime s \<le> prefetchPosTime s \<and>
   (\<exists>new nd. scanned s = scanned s @ new \<and> dispatched s = dispatched s @ nd \<and>
      (\<forall>r \<in> set new. startTime r \<le> prefetchPosTime s) \<and>
      (\<forall>x \<in> set nd. \<forall>r. fst (snd x) = SegmentReference r \<longrightarrow> startTime r \<le> prefetchPosTime s))"
  by simp

lemma gained_trans:
  assumes "prefetchPosTime s \<le> prefetchPosTime s1 \<and>
   (\<exists>new nd. scanned s1 = scanned s @ new \<and> dispatched s1 = dispatched s @ nd \<and>
      (\<forall>r \<in> set new. startTime r \<le> prefetchPosTime s1) \<and>
      (\<forall>x \<in> set nd. \<forall>r. fst (snd x) = SegmentReference r \<longrightarrow> startTime r \<le> prefetchPosTime s1))"
    and "prefetchPosTime s1 \<le> prefetchPosTime s2 \<and>
   (\<exists>new nd. scanned s2 = scanned s1 @ new \<and> dispatched s2 = dispatched s1 @ nd \<and>
      (\<forall>r \<in> set new. startTime r \<le> prefetchPosTime s2) \<and>
      (\<forall>x \<in> set nd. \<forall>r. fst (snd x) = SegmentReference r \<longrightarrow> startTime r \<le> prefetchPosTime s2))"
  shows "prefetchPosTime s \<le> prefetchPosTime s2 \<and>
   (\<exists>new nd. scanned s2 = scanned s @ new \<and> dispatched s2 = dispatched s @ nd \<and>
      (\<forall>r \<in> set new. startTime r \<le> prefetchPosTime s2) \<and>
      (\<forall>x \<in> set nd. \<forall>r. fst (snd x) = SegmentReference r \<longrightarrow> startTime r \<le> prefetchPosTime s2))"
proof -
  from assms(1) obtain new1 nd1 where a: "prefetchPosTime s \<le> prefetchPosTime s1"
    "scanned s1 = scanned s @ new1" "dispatched s1 = dispatched s @ nd1"
    "\<forall>r \<in> set new1. startTime r \<le> prefetchPosTime s1"
    "\<forall>x \<in> set nd1. \<forall>r. fst (snd x) = SegmentReference r \<longrightarrow> startTime r \<le> prefetchPosTime s1"
    by blast
  from assms(2) obtain new2 nd2 where b: "prefetchPosTime s1 \<le> prefetchPosTime s2"
    "scanned s2 = scanned s1 @ new2" "dispatched s2 = dispatched s1 @ nd2"
    "\<forall>r \<in> set new2. startTime r \<le> prefetchPosTime s2"
    "\<forall>x \<in> set nd2. \<forall>r. fst (snd x) = SegmentReference r \<longrightarrow> startTime r \<le> prefetchPosTime s2"
    by blast
  have "scanned s2 = scanned s @ (new1 @ new2)" "dispatched s2 = dispatched s @ (nd1 @ nd2)"
    using a(2,3) b(2,3) by simp_all
  moreover have "\<forall>r \<in> set (new1 @ new2). startTime r \<le> prefetchPosTime s2"
    using a(4) b(1,4) by fastforce
  moreover have "\<forall>x \<in> set (nd1 @ nd2). \<forall>r. fst (snd x) = SegmentReference r \<longrightarrow>
      startTime r \<le> prefetchPosTime s2"
    using a(5) b(1,5) by fastforce
  moreover have "prefetchPosTime s \<le> prefetchPosTime s2" using a(1) b(1) by simp
  ultimately show ?thesis by blast
qed

lemma prefetchSegmentsByTime_position:
  assumes "index_contract (stream s)" and "prefetchSegmentsByTime s t k = Inr s'"
  shows "stream s' = stream s \<and> prefetchPosTime s \<le> prefetchPosTime s' \<and>
   (\<exists>new nd. scanned s' = scanned s @ new \<and> dispatched s' = dispatched s @ nd \<and>
      (\<forall>r \<in> set new. startTime r \<le> prefetchPosTime s') \<and>
      (\<forall>x \<in> set nd. \<forall>r. fst (snd x) = SegmentReference r \<longrightarrow> startTime r \<le> prefetchPosTime s'))"
proof -
  from prefetchSegmentsByTime_Inr[OF assms(2)]
  consider "s' = s"
    | index it s1 where "segmentIndex (stream s) = Some index"
      "index (max t (prefetchPosTime s)) True = Some it"
      "prefetch_loop s (if k then tl it else it) = Inr s1" "s' = clearInitSegments s1"
    by blast
  then show ?thesis
  proof cases
    case 1
    then show ?thesis by simp
  next
    case 2
    let ?refs = "if k then tl it else it"
    from assms(1) 2(1,2) have c: "sorted (map startTime it)"
      "\<forall>r \<in> set it. max t (prefetchPosTime s) \<le> startTime r"
      unfolding index_contract_def by blast+
    have sub: "set ?refs \<subseteq> set it" by (cases it) auto
    have srt: "sorted (map startTime ?refs)"
      using c(1) by (cases it) auto
    have lb: "\<forall>r \<in> set ?refs. prefetchPosTime s \<le> startTime r"
      using c(2) sub by fastforce
    from prefetch_loop_position[OF 2(3) srt lb] obtain new where
      p: "prefetchPosTime s \<le> prefetchPosTime s1" "scanned s1 = scanned s @ new"
      "\<forall>r \<in> set new. startTime r \<le> prefetchPosTime s1" by blast
    from prefetch_loop_dispatched[OF 2(3)] obtain new' nd where
      d: "scanned s1 = scanned s @ new'" "dispatched s1 = dispatched s @ nd"
      "\<forall>x \<in> set nd. \<forall>r. fst (snd x) = SegmentReference r \<longrightarrow> r \<in> set new'" by blast
    from p(2) d(1) have "new' = new" by simp
    with d(3) p(3) have nd: "\<forall>x \<in> set nd. \<forall>r. fst (snd x) = SegmentReference r \<longrightarrow>
        startTime r \<le> prefetchPosTime s1" by blast
    from prefetch_loop_fields(2)[OF 2(3)] p d(2) nd show ?thesis
      unfolding 2(4) by simp
  qed
qed

lemma call_position:
  assumes "index_contract (stream s)" and "\<not> runs_clearAll s c" and "call s c = Inr s'"
  shows "stream s' = stream s \<and> prefetchPosTime s \<le> prefetchPosTime s' \<and>
   (\<exists>new nd. scanned s' = scanned s @ new \<and> dispatched s' = dispatched s @ nd \<and>
      (\<forall>r \<in> set new. startTime r \<le> prefetchPosTime s') \<and>
      (\<forall>x \<in> set nd. \<forall>r. fst (snd x) = SegmentReference r \<longrightarrow> startTime r \<le> prefetchPosTime s'))"
proof (cases c)
  case (ReplaceFetchDispatcher d)
  with assms(3) show ?thesis by auto
next
  case (PrefetchSegmentsByTime t k)
  with assms(3) have "prefetchSegmentsByTime s t k = Inr s'" by simp
  from prefetchSegmentsByTime_position[OF assms(1) this] show ?thesis .
next
  case (PrefetchInitSegment i)
  with assms(3) have "prefetchInitSegment s i = Inr s'" by simp
  from prefetchInitSegment_Inr[OF this] show ?thesis by auto
next
  case (GetPrefetchedSegment ref cb)
  with assms(3) obtain res where "getPrefetchedSegment s ref cb = Inr (res, s')"
    by (cases "getPrefetchedSegment s ref cb") auto
  from getPrefetchedSegment_Inr[OF this] show ?thesis by simp
next
  case ClearAll
  with assms(2) show ?thesis by simp
next
  case (Evict t)
  with assms(3) show ?thesis by auto
next
  case (ResetLimit n)
  with assms(3) have "resetLimit s n = Inr s'" by simp
  from resetLimit_fields[OF this] show ?thesis by simp
next
  case (DeleteOnGet b)
  with assms(3) show ?thesis by (auto simp: deleteOnGet_def)
next
  case (SwitchStream st)
  with assms(3) have sw: "switchStream s st = Inr s'" by simp
  from switchStream_Inr[OF sw] assms(2) SwitchStream have "s' = s" by auto
  then show ?thesis by simp
qed

lemma calls_position:
  assumes "index_contract (stream s)" and "no_clearAll s cs"
  shows "prefetchPosTime s \<le> prefetchPosTime (calls s cs) \<and>
   (\<exists>new nd. scanned (calls s cs) = scanned s @ new \<and> dispatched (calls s cs) = dispatched s @ nd \<and>
      (\<forall>r \<in> set new. startTime r \<le> prefetchPosTime (calls s cs)) \<and>
      (\<forall>x \<in> set nd. \<forall>r. fst (snd x) = SegmentReference r \<longrightarrow>
         startTime r \<le> prefetchPosTime (calls s cs)))"
  using assms
proof (induction cs arbitrary: s)
  case Nil
  show ?case using gained_refl[of s] by simp
next
  case (Cons c cs)
  show ?case
  proof (cases "call s c")
    case (Inl e)
    with Cons show ?thesis by simp
  next
    case (Inr s1)
    from Cons.prems(2) Inr have nc: "\<not> runs_clearAll s c" and rest: "no_clearAll s1 cs" by simp_all
    from call_position[OF Cons.prems(1) nc Inr] have st: "stream s1 = stream s"
      and g1: "prefetchPosTime s \<le> prefetchPosTime s1 \<and>
        (\<exists>new nd. scanned s1 = scanned s @ new \<and> dispatched s1 = dispatched s @ nd \<and>
          (\<forall>r \<in> set new. startTime r \<le> prefetchPosTime s1) \<and>
          (\<forall>x \<in> set nd. \<forall>r. fst (snd x) = SegmentReference r \<longrightarrow> startTime r \<le> prefetchPosTime s1))"
      by simp_all
    from Cons.prems(1) st have c1: "index_contract (stream s1)" by simp
    from gained_trans[OF g1 Cons.IH[OF c1 rest]] Inr show ?thesis by simp
  qed
qed

lemma runs_clearAll_position:
  assumes "runs_clearAll s c" and "call s c = Inr s'"
  shows "prefetchPosTime s' = 0"
proof (cases c)
  case ClearAll
  with assms(2) show ?thesis by auto
next
  case (SwitchStream st)
  with assms(1) obtain st' where st: "st = Some st'" "st' \<noteq> stream s" "deleteOnGet_fld s"
    by (cases st) auto
  with assms(2) SwitchStream show ?thesis by (auto simp: switchStream_def)
qed (use assms(1) in simp_all)

lemma index_contract_example [simp]: "index_contract example_stream"
  by (auto simp: index_contract_def example_stream_def example_index_def)


section \<open>The claims\<close>

subsection \<open>C1: replaceFetchDispatcher\<close>

text \<open>
  C1 asks that after \<^verbatim>\<open>replaceFetchDispatcher(d)\<close> every operation of both tables
  uses \<open>d\<close>. The method walks the media table only. In the example prefetcher, whose three
  operations were created with dispatcher 1, \<^verbatim>\<open>replaceFetchDispatcher(2)\<close> sets the
  prefetcher's own dispatcher and that of the two media operations to 2, and the operation
  of the init segment keeps dispatcher 1.
\<close>

theorem replaceFetchDispatcher_skips_init_operations:
  "fetchDispatcher (replaceFetchDispatcher example_prefetch 2) = 2 \<and>
   map (\<lambda>(r, a). map_option op_fetchDispatcher
                   (operation_at (replaceFetchDispatcher example_prefetch 2) a))
     (segmentPrefetchMap (replaceFetchDispatcher example_prefetch 2)) = [Some 2, Some 2] \<and>
   map (\<lambda>(i, a). map_option op_fetchDispatcher
                   (operation_at (replaceFetchDispatcher example_prefetch 2) a))
     (initSegmentPrefetchMap (replaceFetchDispatcher example_prefetch 2)) = [Some 1]"
  by (simp add: operation_at_def)
     (simp add: replaceFetchDispatcher_def update_operation_def operation_at_def
        op_replaceFetchDispatcher_def)

subsection \<open>C2: attaching a consumer to an operation that has buffered bytes\<close>

text \<open>
  C2, as stated, fails: \<^verbatim>\<open>setStreamDataCallback\<close> delivers nothing and leaves
  the accumulator as it is. In the example, two chunks are buffered, attaching consumer 5
  delivers nothing and keeps the two bytes, and the chunk that arrives next is not
  delivered on its own: the consumer gets the buffered bytes and that chunk in one call.
\<close>

theorem setStreamDataCallback_flush_counterexample:
  "buffered example_operation = [1, 2] \<and>
   delivered (setStreamDataCallback example_operation (Some 5)) = [] \<and>
   buffered (setStreamDataCallback example_operation (Some 5)) = [1, 2] \<and>
   delivered (onData_all (setStreamDataCallback example_operation (Some 5)) [ [3], [4] ]) =
     [(5, [1, 2, 3]), (5, [4])]"
  by (simp add: example_operation_def new_SegmentPrefetchOperation_def op_dispatchFetch_def
      setStreamDataCallback_def dispatchFetch_onData_def)

text \<open>
  C2, amended. The chunks that arrive at a dispatched operation before a consumer is
  attached are accumulated and nothing is delivered. For every operation,
  \<^verbatim>\<open>setStreamDataCallback(cb)\<close> only stores \<open>cb\<close>: nothing is delivered and the
  accumulator is unchanged. The next chunk is delivered to \<open>cb\<close> in a single call together
  with the accumulated bytes in front of it, and the accumulator is cleared; every later
  chunk is passed to \<open>cb\<close> on its own.
\<close>

theorem setStreamDataCallback_then_chunks:
  "buffered (onData_all (op_dispatchFetch (new_SegmentPrefetchOperation d) h) before) =
     concat before \<and>
   delivered (onData_all (op_dispatchFetch (new_SegmentPrefetchOperation d) h) before) = [] \<and>
   streamDataCallback (setStreamDataCallback opn (Some cb)) = Some cb \<and>
   buffered (setStreamDataCallback opn (Some cb)) = buffered opn \<and>
   delivered (setStreamDataCallback opn (Some cb)) = delivered opn \<and>
   delivered (dispatchFetch_onData (setStreamDataCallback opn (Some cb)) c) =
     delivered opn @ [(cb, buffered opn @ c)] \<and>
   buffered (dispatchFetch_onData (setStreamDataCallback opn (Some cb)) c) = [] \<and>
   delivered (onData_all (setStreamDataCallback opn (Some cb)) (c # after)) =
     delivered opn @ (cb, buffered opn @ c) # map (Pair cb) after \<and>
   buffered (onData_all (setStreamDataCallback opn (Some cb)) (c # after)) = []"
proof -
  let ?fresh = "op_dispatchFetch (new_SegmentPrefetchOperation d) h"
  let ?op1 = "setStreamDataCallback opn (Some cb)"
  let ?op2 = "dispatchFetch_onData ?op1 c"
  have fresh: "streamDataCallback ?fresh = None" "buffered ?fresh = []" "delivered ?fresh = []"
    by (simp_all add: op_dispatchFetch_def new_SegmentPrefetchOperation_def)
  have before: "onData_all ?fresh before = ?fresh\<lparr>buffered := concat before\<rparr>"
    using onData_all_buffering[OF fresh(1), of before] fresh(2) by simp
  have op2: "?op2 = opn\<lparr>streamDataCallback := Some cb,
                        delivered := delivered opn @ [(cb, buffered opn @ c)], buffered := []\<rparr>"
    by (simp add: dispatchFetch_onData_def setStreamDataCallback_def)
  have after: "onData_all ?op2 after = ?op2\<lparr>delivered := delivered ?op2 @ map (Pair cb) after\<rparr>"
    by (rule onData_all_forwarding) (simp_all add: op2)
  have d2: "delivered ?op2 = delivered opn @ [(cb, buffered opn @ c)]" "buffered ?op2 = []"
    by (simp_all add: op2)
  have s1: "streamDataCallback ?op1 = Some cb" "buffered ?op1 = buffered opn"
    "delivered ?op1 = delivered opn"
    by (simp_all add: setStreamDataCallback_def)
  show ?thesis
    by (simp add: before fresh after d2 s1)
qed

subsection \<open>C3: the last known position\<close>

text \<open>
  C3, as stated, fails in its second half: after \<^verbatim>\<open>prefetchSegmentsByTime(0)\<close> and
  \<^verbatim>\<open>clearAll()\<close> the position is 0, and the reference \<open>R2\<close>, which has been scanned
  and dispatched, starts at 2.
\<close>

theorem position_after_clearAll_counterexample:
  "scanned (calls (new_SegmentPrefetch 2 example_stream 1 False)
             [PrefetchSegmentsByTime 0 False, ClearAll]) = [R1, R2] \<and>
   map (fst \<circ> snd) (dispatched (calls (new_SegmentPrefetch 2 example_stream 1 False)
             [PrefetchSegmentsByTime 0 False, ClearAll])) =
     [InitSegmentReference I1, SegmentReference R1, SegmentReference R2] \<and>
   prefetchPosTime (calls (new_SegmentPrefetch 2 example_stream 1 False)
             [PrefetchSegmentsByTime 0 False, ClearAll]) = 0 \<and>
   startTime R2 = 2 \<and>
   \<not> startTime R2 \<le> prefetchPosTime (calls (new_SegmentPrefetch 2 example_stream 1 False)
                                       [PrefetchSegmentsByTime 0 False, ClearAll])"
proof -
  have "calls (new_SegmentPrefetch 2 example_stream 1 False)
          [PrefetchSegmentsByTime 0 False, ClearAll] = clearAll example_prefetch"
    by (simp add: example_prefetch_def)
  then show ?thesis by simp
qed

text \<open>
  C3, amended. Let the segment index of the stream hand out, for a time, references in the
  order of their start times, none starting before that time. A call that runs
  \<^verbatim>\<open>clearAll\<close> (\<^verbatim>\<open>clearAll\<close> itself, or \<^verbatim>\<open>switchStream\<close> to another
  stream) leaves the position at zero. Over every sequence of calls none of which runs
  \<^verbatim>\<open>clearAll\<close>, the position does not decrease, and at the end it is at least the
  start time of every reference scanned and of every media reference dispatched during
  the sequence.
\<close>

theorem position_high_water_mark:
  assumes "index_contract (stream s)"
  shows "(\<forall>s'. runs_clearAll s c \<longrightarrow> call s c = Inr s' \<longrightarrow> prefetchPosTime s' = 0) \<and>
    (no_clearAll s cs \<longrightarrow>
       prefetchPosTime s \<le> prefetchPosTime (calls s cs) \<and>
       (\<exists>new nd. scanned (calls s cs) = scanned s @ new \<and>
          dispatched (calls s cs) = dispatched s @ nd \<and>
          (\<forall>r \<in> set new. startTime r \<le> prefetchPosTime (calls s cs)) \<and>
          (\<forall>x \<in> set nd. \<forall>r. fst (snd x) = SegmentReference r \<longrightarrow>
             startTime r \<le> prefetchPosTime (calls s cs))))"
  using runs_clearAll_position[of s c] calls_position[OF assms, of cs] by blast

theorem position_high_water_mark_witness:
  "index_contract (stream (new_SegmentPrefetch 2 example_stream 1 False)) \<and>
   no_clearAll (new_SegmentPrefetch 2 example_stream 1 False) [PrefetchSegmentsByTime 0 False] \<and>
   prefetchPosTime (new_SegmentPrefetch 2 example_stream 1 False) = 0 \<and>
   prefetchPosTime (calls (new_SegmentPrefetch 2 example_stream 1 False)
                      [PrefetchSegmentsByTime 0 False]) = 2 \<and>
   scanned (calls (new_SegmentPrefetch 2 example_stream 1 False)
              [PrefetchSegmentsByTime 0 False]) = [R1, R2] \<and>
   prefetchPosTime (new_SegmentPrefetch 2 example_stream 1 False)
     \<le> prefetchPosTime (calls (new_SegmentPrefetch 2 example_stream 1 False)
                          [PrefetchSegmentsByTime 0 False]) \<and>
   runs_clearAll example_prefetch ClearAll \<and>
   call example_prefetch ClearAll = Inr (clearAll example_prefetch) \<and>
   prefetchPosTime (clearAll example_prefetch) = 0"
proof -
  let ?s0 = "new_SegmentPrefetch 2 example_stream 1 False"
  have c0: "index_contract (stream ?s0)" by (simp add: new_SegmentPrefetch_def)
  have c1: "index_contract (stream example_prefetch)" by simp
  have run: "calls ?s0 [PrefetchSegmentsByTime 0 False] = example_prefetch"
    by (simp add: example_prefetch_def)
  have nc: "no_clearAll ?s0 [PrefetchSegmentsByTime 0 False]" by simp
  from position_high_water_mark[OF c0, of ClearAll "[PrefetchSegmentsByTime 0 False]"] nc
  have mono: "prefetchPosTime ?s0 \<le> prefetchPosTime (calls ?s0 [PrefetchSegmentsByTime 0 False])"
    by blast
  from position_high_water_mark[OF c1, of ClearAll "[]"]
  have zero: "prefetchPosTime (clearAll example_prefetch) = 0" by simp
  have p0: "prefetchPosTime ?s0 = 0" by (simp add: new_SegmentPrefetch_def)
  from c0 nc mono zero p0 show ?thesis
    unfolding run by simp
qed

subsection \<open>C4: the media table against the limit\<close>

text \<open>
  C4, as stated, fails for a limit that is not a whole number: the loop goes on while the
  size is below the limit, so with the limit 3/2 the call
  \<^verbatim>\<open>prefetchSegmentsByTime(0)\<close> of a new prefetcher ends with the two entries of
  \<open>R1\<close> and \<open>R2\<close>.
\<close>

theorem prefetchSegmentsByTime_fractional_limit_counterexample:
  "map fst (segmentPrefetchMap
     (calls (new_SegmentPrefetch (3 / 2) example_stream 1 False)
        [PrefetchSegmentsByTime 0 False])) = [R1, R2] \<and>
   prefetchLimit (calls (new_SegmentPrefetch (3 / 2) example_stream 1 False)
        [PrefetchSegmentsByTime 0 False]) = 3 / 2 \<and>
   \<not> real (length (segmentPrefetchMap
        (calls (new_SegmentPrefetch (3 / 2) example_stream 1 False)
           [PrefetchSegmentsByTime 0 False])))
      \<le> prefetchLimit (calls (new_SegmentPrefetch (3 / 2) example_stream 1 False)
           [PrefetchSegmentsByTime 0 False])"
  by (simp add: example_defs)

text \<open>
  C4, amended: take a prefetcher as the constructor makes it and any sequence of calls of
  its methods. A call of \<^verbatim>\<open>prefetchSegmentsByTime\<close> made then returns whenever the
  limit is positive (otherwise its assertion fails), and when it returns the media table
  holds fewer than \<^verbatim>\<open>prefetchLimit\<close> + 1 entries; so it holds at most
  \<^verbatim>\<open>prefetchLimit\<close> entries when the limit is a whole number.
\<close>

theorem prefetchSegmentsByTime_within_limit:
  "(0 < prefetchLimit (calls (new_SegmentPrefetch limit st d dog) cs) \<longrightarrow>
      (\<exists>s'. prefetchSegmentsByTime (calls (new_SegmentPrefetch limit st d dog) cs) t skipFirst =
         Inr s')) \<and>
   (prefetchSegmentsByTime (calls (new_SegmentPrefetch limit st d dog) cs) t skipFirst = Inr s' \<longrightarrow>
      real (length (segmentPrefetchMap s')) < prefetchLimit s' + 1 \<and>
      (prefetchLimit s' \<in> \<int> \<longrightarrow> real (length (segmentPrefetchMap s')) \<le> prefetchLimit s'))"
proof -
  let ?s = "calls (new_SegmentPrefetch limit st d dog) cs"
  have new: "segmentPrefetchMap (new_SegmentPrefetch limit st d dog) = [] \<or>
      real (length (segmentPrefetchMap (new_SegmentPrefetch limit st d dog)))
        < prefetchLimit (new_SegmentPrefetch limit st d dog) + 1"
    by (simp add: new_SegmentPrefetch_def)
  from calls_invariant[OF maps_ok_new new, of cs]
  have ok: "maps_ok ?s"
    and size: "segmentPrefetchMap ?s = [] \<or>
      real (length (segmentPrefetchMap ?s)) < prefetchLimit ?s + 1"
    by simp_all
  have returns: "0 < prefetchLimit ?s \<longrightarrow> (\<exists>s'. prefetchSegmentsByTime ?s t skipFirst = Inr s')"
    using prefetchSegmentsByTime_not_Inl[of ?s t skipFirst]
    by (cases "prefetchSegmentsByTime ?s t skipFirst") auto
  have bound: "real (length (segmentPrefetchMap s')) < prefetchLimit s' + 1"
    if p: "prefetchSegmentsByTime ?s t skipFirst = Inr s'"
  proof -
    from prefetchSegmentsByTime_Inr[OF p] have pos: "0 < prefetchLimit ?s" by simp
    with size have le: "real (length (segmentPrefetchMap ?s)) < prefetchLimit ?s + 1" by auto
    from prefetchSegmentsByTime_Inr[OF p] le show ?thesis
      by (auto dest: prefetch_loop_size)
  qed
  have whole: "real k \<le> z" if "z \<in> \<int>" "real k < z + 1" for k :: nat and z :: real
    using that whole_limit_bound by blast
  from returns bound whole show ?thesis by blast
qed

theorem prefetchSegmentsByTime_within_limit_witness:
  "0 < prefetchLimit (calls (new_SegmentPrefetch 2 example_stream 1 False) []) \<and>
   prefetchSegmentsByTime (calls (new_SegmentPrefetch 2 example_stream 1 False) []) 0 False =
     Inr example_prefetch \<and>
   map fst (segmentPrefetchMap example_prefetch) = [R1, R2] \<and>
   prefetchLimit example_prefetch \<in> \<int> \<and>
   real (length (segmentPrefetchMap example_prefetch)) < prefetchLimit example_prefetch + 1 \<and>
   real (length (segmentPrefetchMap example_prefetch)) \<le> prefetchLimit example_prefetch"
proof -
  have run: "prefetchSegmentsByTime (calls (new_SegmentPrefetch 2 example_stream 1 False) []) 0 False =
     Inr example_prefetch"
    using prefetchSegmentsByTime_not_Inl[of "new_SegmentPrefetch 2 example_stream 1 False" 0 False]
    by (cases "prefetchSegmentsByTime (new_SegmentPrefetch 2 example_stream 1 False) 0 False")
       (simp_all add: example_prefetch_def new_SegmentPrefetch_def)
  from prefetchSegmentsByTime_within_limit[of 2 example_stream 1 False "[]" 0 False example_prefetch]
    run
  show ?thesis by (simp add: new_SegmentPrefetch_def)
qed

subsection \<open>C5: resetLimit\<close>

text \<open>
  C5, as stated, fails for a new limit that is not a whole number: the loop pops while the
  length is above the limit, so \<^verbatim>\<open>resetLimit(3/2)\<close> on a table of two entries
  leaves one entry, which is not the minimum of 3/2 and 2.
\<close>

theorem resetLimit_fractional_limit_counterexample:
  "length (segmentPrefetchMap example_prefetch) = 2 \<and>
   prefetchLimit (calls example_prefetch [ResetLimit (3 / 2)]) = 3 / 2 \<and>
   segmentPrefetchMap (calls example_prefetch [ResetLimit (3 / 2)]) = [(R1, 1)] \<and>
   \<not> real (length (segmentPrefetchMap (calls example_prefetch [ResetLimit (3 / 2)]))) =
      min (3 / 2) (real (length (segmentPrefetchMap example_prefetch)))"
proof -
  have f: "nat \<lfloor>3 / 2 :: real\<rfloor> = 1" by simp
  have "resetLimit example_prefetch (3 / 2) =
      Inr (example_prefetch\<lparr>prefetchLimit := 3 / 2, segmentPrefetchMap := [(R1, 1)],
             aborted := [2]\<rparr>)"
    by (simp add: resetLimit_eq[OF maps_ok_example] f) (simp add: request_at_def)
  then show ?thesis by simp
qed

text \<open>
  C5, amended: for every prefetcher (whose tables hold each key once, as a
  \<^verbatim>\<open>Map\<close> does) and every new limit \<open>n \<ge> 0\<close>, whole or not,
  \<^verbatim>\<open>resetLimit(n)\<close> returns; the limit is then \<open>n\<close>; the media table is its first
  \<open>\<lfloor>n\<rfloor>\<close> entries, so its size is the minimum of \<open>\<lfloor>n\<rfloor>\<close> and the size before, which is
  the minimum of \<open>n\<close> and the size before when \<open>n\<close> is a whole number; the entries beyond were
  aborted from the last inserted back to the first of them; after them the init segments
  that no remaining media entry references were aborted, and the init table holds the
  others.
\<close>

theorem resetLimit_shrinks_lifo:
  assumes "maps_ok s" and "0 \<le> n"
  shows "\<exists>s'. resetLimit s n = Inr s' \<and> prefetchLimit s' = n \<and>
    segmentPrefetchMap s' = take (nat \<lfloor>n\<rfloor>) (segmentPrefetchMap s) \<and>
    length (segmentPrefetchMap s') = min (nat \<lfloor>n\<rfloor>) (length (segmentPrefetchMap s)) \<and>
    (n \<in> \<int> \<longrightarrow>
       real (length (segmentPrefetchMap s')) = min n (real (length (segmentPrefetchMap s)))) \<and>
    initSegmentPrefetchMap s' = filter (\<lambda>(i, a). referenced s' i) (initSegmentPrefetchMap s) \<and>
    aborted s' = aborted s @
      requests_of (operations s) (rev (drop (nat \<lfloor>n\<rfloor>) (segmentPrefetchMap s))) @
      requests_of (operations s)
        (filter (\<lambda>(i, a). \<not> referenced s' i) (initSegmentPrefetchMap s)) \<and>
    operations s' = operations s"
proof -
  have whole: "n \<in> \<int> \<longrightarrow>
      real (min (length (segmentPrefetchMap s)) (nat \<lfloor>n\<rfloor>)) =
        min n (real (length (segmentPrefetchMap s)))"
    using whole_limit_min[OF assms(2), of "length (segmentPrefetchMap s)"]
    by (simp add: min.commute)
  show ?thesis
    using whole
    by (simp add: resetLimit_eq[OF assms] referenced_def min.commute)
qed

theorem resetLimit_shrinks_lifo_witness:
  "maps_ok example_prefetch \<and> (0::real) \<le> 0 \<and>
   map fst (segmentPrefetchMap example_prefetch) = [R1, R2] \<and>
   requests_of (operations example_prefetch) (segmentPrefetchMap example_prefetch) = [1, 2] \<and>
   requests_of (operations example_prefetch) (initSegmentPrefetchMap example_prefetch) = [0] \<and>
   (\<exists>s'. resetLimit example_prefetch 0 = Inr s' \<and> prefetchLimit s' = 0 \<and>
      segmentPrefetchMap s' = [] \<and> initSegmentPrefetchMap s' = [] \<and> aborted s' = [2, 1, 0])"
proof -
  from resetLimit_shrinks_lifo[OF maps_ok_example, of 0]
  obtain s' where r: "resetLimit example_prefetch 0 = Inr s'" "prefetchLimit s' = 0"
    "segmentPrefetchMap s' = take (nat \<lfloor>0 :: real\<rfloor>) (segmentPrefetchMap example_prefetch)"
    "initSegmentPrefetchMap s' =
       filter (\<lambda>(i, a). referenced s' i) (initSegmentPrefetchMap example_prefetch)"
    "aborted s' = aborted example_prefetch @
      requests_of (operations example_prefetch)
        (rev (drop (nat \<lfloor>0 :: real\<rfloor>) (segmentPrefetchMap example_prefetch))) @
      requests_of (operations example_prefetch)
        (filter (\<lambda>(i, a). \<not> referenced s' i) (initSegmentPrefetchMap example_prefetch))"
    by auto
  have nr: "\<And>i. \<not> referenced s' i" using r(3) by (simp add: referenced_def)
  have "segmentPrefetchMap s' = [] \<and> initSegmentPrefetchMap s' = [] \<and> aborted s' = [2, 1, 0]"
    using r(3,4,5) nr by (simp add: request_at_def)
  with r(1,2) show ?thesis
    by (simp add: request_at_def)
qed

subsection \<open>C6: evict\<close>

text \<open>
  C6: for every time \<open>t\<close> and every prefetcher (whose tables hold each key once),
  \<^verbatim>\<open>evict(t)\<close> leaves in the media table exactly the entries whose reference has
  \<open>endTime \<ge> t\<close>, in their order and with their operations untouched, and has aborted the
  operations of the entries with \<open>endTime < t\<close> (before those of the pruned init segments).
\<close>

theorem evict_removes_passed:
  assumes "maps_ok s"
  shows "segmentPrefetchMap (evict s t) =
      filter (\<lambda>(r, a). endTime r = t \<or> endTime r > t) (segmentPrefetchMap s) \<and>
    operations (evict s t) = operations s \<and>
    aborted (evict s t) = aborted s @
      requests_of (operations s) (filter (\<lambda>(r, a). endTime r < t) (segmentPrefetchMap s)) @
      requests_of (operations s)
        (filter (\<lambda>(i, a). \<not> referenced (evict s t) i) (initSegmentPrefetchMap s))"
proof -
  have "(\<lambda>(r, a). \<not> endTime r < t) = (\<lambda>(r :: segment_reference, a :: nat). endTime r = t \<or> endTime r > t)"
    by (auto simp: fun_eq_iff)
  then show ?thesis
    by (simp add: evict_eq[OF assms] referenced_def)
qed

theorem evict_removes_passed_witness:
  "maps_ok example_prefetch \<and>
   map (\<lambda>(r, a). (endTime r, a)) (segmentPrefetchMap example_prefetch) = [(2, 1), (4, 2)] \<and>
   segmentPrefetchMap (evict example_prefetch 3) = [(R2, 2)] \<and>
   aborted (evict example_prefetch 3) = [1] \<and>
   segmentPrefetchMap (evict example_prefetch 2) = [(R1, 1), (R2, 2)] \<and>
   aborted (evict example_prefetch 2) = []"
  using evict_removes_passed[OF maps_ok_example, of 3] evict_removes_passed[OF maps_ok_example, of 2]
  by (simp add: request_at_def referenced_def)

subsection \<open>C7: one operation per reference\<close>

text \<open>
  C7: in every state that a sequence of calls reaches from a new prefetcher, each table
  holds a reference at most once. \<^verbatim>\<open>prefetchInitSegment\<close> of an init reference that
  is in the init table changes nothing. \<^verbatim>\<open>prefetchSegmentsByTime\<close> in a state where
  a reference is in the table of its kind calls no dispatcher for that reference and
  touches no operation that exists (it only adds new ones); a media reference keeps its
  entry and its operation.
\<close>

theorem one_operation_per_reference:
  "maps_ok (calls (new_SegmentPrefetch limit st d dog) cs) \<and>
   (\<forall>a. entry_of s (InitSegmentReference i) = Some a \<longrightarrow> 0 < prefetchLimit s \<longrightarrow>
      prefetchInitSegment s i = Inr s) \<and>
   (\<forall>a s'. entry_of s ref = Some a \<longrightarrow> prefetchSegmentsByTime s t skipFirst = Inr s' \<longrightarrow>
      filter (\<lambda>x. fst (snd x) = ref) (dispatched s') =
        filter (\<lambda>x. fst (snd x) = ref) (dispatched s) \<and>
      (\<exists>more. operations s' = operations s @ more) \<and>
      (\<forall>r. ref = SegmentReference r \<longrightarrow> entry_of s' ref = Some a))"
proof -
  have new: "segmentPrefetchMap (new_SegmentPrefetch limit st d dog) = [] \<or>
      real (length (segmentPrefetchMap (new_SegmentPrefetch limit st d dog)))
        < prefetchLimit (new_SegmentPrefetch limit st d dog) + 1"
    by (simp add: new_SegmentPrefetch_def)
  from calls_invariant[OF maps_ok_new new, of cs]
  have one: "maps_ok (calls (new_SegmentPrefetch limit st d dog) cs)" by simp
  have two: "prefetchInitSegment s i = Inr s"
    if "entry_of s (InitSegmentReference i) = Some a" "0 < prefetchLimit s" for a
    using that by (simp add: prefetchInitSegment_def entry_of_def)
  have three: "filter (\<lambda>x. fst (snd x) = ref) (dispatched s') =
        filter (\<lambda>x. fst (snd x) = ref) (dispatched s) \<and>
      (\<exists>more. operations s' = operations s @ more) \<and>
      (\<forall>r. ref = SegmentReference r \<longrightarrow> entry_of s' ref = Some a)"
    if e: "entry_of s ref = Some a" and p: "prefetchSegmentsByTime s t skipFirst = Inr s'" for a s'
  proof -
    from prefetchSegmentsByTime_Inr[OF p]
    consider "s' = s" | s1 refs where "prefetch_loop s refs = Inr s1" "s' = clearInitSegments s1"
      by blast
    then show ?thesis
    proof cases
      case 1
      with e show ?thesis by auto
    next
      case 2
      from prefetch_loop_present[OF 2(1) e] 2(2) show ?thesis
        by (auto simp: entry_of_def)
    qed
  qed
  from one two three show ?thesis by blast
qed

theorem one_operation_per_reference_witness:
  "maps_ok (calls (new_SegmentPrefetch 2 example_stream 1 False) [PrefetchSegmentsByTime 0 False]) \<and>
   entry_of example_prefetch (InitSegmentReference I1) = Some 0 \<and>
   prefetchInitSegment example_prefetch I1 = Inr example_prefetch \<and>
   entry_of (example_prefetch\<lparr>prefetchLimit := 3\<rparr>) (SegmentReference R2) = Some 2 \<and>
   (\<exists>s'. prefetchSegmentsByTime (example_prefetch\<lparr>prefetchLimit := 3\<rparr>) 0 False = Inr s' \<and>
      scanned s' = [R1, R2, R2, R3] \<and>
      map (fst \<circ> snd) (dispatched s') =
        [InitSegmentReference I1, SegmentReference R1, SegmentReference R2, SegmentReference R3] \<and>
      filter (\<lambda>x. fst (snd x) = SegmentReference R2) (dispatched s') =
        [(1, SegmentReference R2, example_stream)] \<and>
      entry_of s' (SegmentReference R2) = Some 2)"
proof -
  let ?s = "example_prefetch\<lparr>prefetchLimit := 3\<rparr>"
  note w1 = one_operation_per_reference[of 2 example_stream 1 False
      "[PrefetchSegmentsByTime 0 False]" example_prefetch I1 "SegmentReference R2" 0 False]
  note w2 = one_operation_per_reference[of 2 example_stream 1 False
      "[PrefetchSegmentsByTime 0 False]" ?s I1 "SegmentReference R2" 0 False]
  have e0: "entry_of example_prefetch (InitSegmentReference I1) = Some 0"
    and e2: "entry_of ?s (SegmentReference R2) = Some 2"
    by (simp_all add: entry_of_def)
  from w1 e0 have init: "prefetchInitSegment example_prefetch I1 = Inr example_prefetch"
    by simp
  obtain s' where run: "prefetchSegmentsByTime ?s 0 False = Inr s'"
    using prefetchSegmentsByTime_not_Inl[of ?s 0 False]
    by (cases "prefetchSegmentsByTime ?s 0 False") auto
  have val: "scanned s' = [R1, R2, R2, R3] \<and>
      map (fst \<circ> snd) (dispatched s') =
        [InitSegmentReference I1, SegmentReference R1, SegmentReference R2, SegmentReference R3]"
    using run by (auto simp: example_prefetch_eq example_defs)
  from w2 e2 run have kept: "filter (\<lambda>x. fst (snd x) = SegmentReference R2) (dispatched s') =
        filter (\<lambda>x. fst (snd x) = SegmentReference R2) (dispatched ?s)"
    and ent: "entry_of s' (SegmentReference R2) = Some 2"
    by blast+
  from kept have k: "filter (\<lambda>x. fst (snd x) = SegmentReference R2) (dispatched s') =
        [(1, SegmentReference R2, example_stream)]"
    by simp
  from w1 have ok: "maps_ok (calls (new_SegmentPrefetch 2 example_stream 1 False)
      [PrefetchSegmentsByTime 0 False])" by blast
  from ok e0 init e2 run val k ent show ?thesis by auto
qed

subsection \<open>C8: getPrefetchedSegment\<close>

text \<open>
  C8, as stated, fails for a prefetcher whose limit is not positive: the reference is
  absent and the call does not return none, it fails its assertion.
\<close>

theorem getPrefetchedSegment_absent_counterexample:
  "entry_of (new_SegmentPrefetch 0 example_stream 1 True) (SegmentReference R1) = None \<and>
   getPrefetchedSegment (new_SegmentPrefetch 0 example_stream 1 True) (SegmentReference R1) None =
     Inl (AssertionError ''SegmentPrefetch can not be used when prefetchLimit <= 0.'')"
  by (simp add: entry_of_def new_SegmentPrefetch_def getPrefetchedSegment_def)

text \<open>
  C8, amended: for every prefetcher whose limit is positive and every reference,
  \<^verbatim>\<open>getPrefetchedSegment\<close> returns none and changes nothing when the reference is
  absent from the table of its kind. When the reference is there, it returns the pending
  request of the operation stored for it; a consumer callback that was supplied is attached
  to that operation and no other operation changes (none changes when no callback was
  supplied); with \<^verbatim>\<open>deleteOnGet\<close> the entry is removed, so that an immediate second
  call with the same reference returns none, and without it the entry stays.
\<close>

theorem getPrefetchedSegment_lookup:
  assumes "0 < prefetchLimit s"
  shows "(entry_of s ref = None \<longrightarrow> getPrefetchedSegment s ref cb = Inr (None, s)) \<and>
    (\<forall>a. entry_of s ref = Some a \<longrightarrow>
       (\<exists>s'. getPrefetchedSegment s ref cb =
               Inr (Option.bind (operation_at s a) getOperation, s') \<and>
             (cb = None \<longrightarrow> operations s' = operations s) \<and>
             (\<forall>c. cb = Some c \<longrightarrow> a < length (operations s) \<longrightarrow>
                operations s' =
                  (operations s)[a := setStreamDataCallback (operations s ! a) (Some c)]) \<and>
             (deleteOnGet_fld s \<longrightarrow>
                entry_of s' ref = None \<and>
                (\<forall>cb'. getPrefetchedSegment s' ref cb' = Inr (None, s'))) \<and>
             (\<not> deleteOnGet_fld s \<longrightarrow> entry_of s' ref = Some a)))"
proof (cases ref)
  case (SegmentReference r)
  show ?thesis
  proof (cases cb)
    case None
    with SegmentReference assms show ?thesis
      by (auto simp: getPrefetchedSegment_def entry_of_def Let_def delete_conv operation_at_def)
  next
    case (Some c)
    with SegmentReference assms show ?thesis
      by (auto simp: getPrefetchedSegment_def entry_of_def Let_def delete_conv
          operations_update_operation operation_at_def getOperation_def
          setStreamDataCallback_def)
  qed
next
  case (InitSegmentReference i)
  show ?thesis
  proof (cases cb)
    case None
    with InitSegmentReference assms show ?thesis
      by (auto simp: getPrefetchedSegment_def entry_of_def Let_def delete_conv operation_at_def)
  next
    case (Some c)
    with InitSegmentReference assms show ?thesis
      by (auto simp: getPrefetchedSegment_def entry_of_def Let_def delete_conv
          operations_update_operation operation_at_def getOperation_def
          setStreamDataCallback_def)
  qed
qed


theorem getPrefetchedSegment_lookup_witness:
  "0 < prefetchLimit (deleteOnGet example_prefetch True) \<and>
   entry_of (deleteOnGet example_prefetch True) (SegmentReference R3) = None \<and>
   getPrefetchedSegment (deleteOnGet example_prefetch True) (SegmentReference R3) (Some 5) =
     Inr (None, deleteOnGet example_prefetch True) \<and>
   entry_of (deleteOnGet example_prefetch True) (SegmentReference R1) = Some 1 \<and>
   (\<exists>s'. getPrefetchedSegment (deleteOnGet example_prefetch True) (SegmentReference R1) (Some 5) =
            Inr (Some 1, s') \<and>
          map streamDataCallback (operations s') = [None, Some 5, None] \<and>
          entry_of s' (SegmentReference R1) = None \<and>
          getPrefetchedSegment s' (SegmentReference R1) (Some 5) = Inr (None, s'))"
proof -
  let ?s = "deleteOnGet example_prefetch True"
  have pos: "0 < prefetchLimit ?s" by (simp add: deleteOnGet_def)
  have e3: "entry_of ?s (SegmentReference R3) = None"
    and e1: "entry_of ?s (SegmentReference R1) = Some 1"
    by (simp_all add: deleteOnGet_def entry_of_def)
  note w3 = getPrefetchedSegment_lookup[OF pos, of "SegmentReference R3" "Some 5"]
  note w1 = getPrefetchedSegment_lookup[OF pos, of "SegmentReference R1" "Some 5"]
  from w3 e3 have miss: "getPrefetchedSegment ?s (SegmentReference R3) (Some 5) = Inr (None, ?s)"
    by blast
  from w1 e1 obtain s' where
    hit: "getPrefetchedSegment ?s (SegmentReference R1) (Some 5) =
            Inr (Option.bind (operation_at ?s 1) getOperation, s')"
    and cbk: "1 < length (operations ?s) \<longrightarrow>
         operations s' = (operations ?s)[1 := setStreamDataCallback (operations ?s ! 1) (Some 5)]"
    and del: "deleteOnGet_fld ?s \<longrightarrow> entry_of s' (SegmentReference R1) = None \<and>
         (\<forall>cb'. getPrefetchedSegment s' (SegmentReference R1) cb' = Inr (None, s'))"
    by blast
  have h: "Option.bind (operation_at ?s 1) getOperation = Some 1"
    by (simp add: deleteOnGet_def operation_at_def getOperation_def)
  have o: "map streamDataCallback (operations s') = [None, Some 5, None]"
    using cbk by (simp add: deleteOnGet_def setStreamDataCallback_def)
  have d: "entry_of s' (SegmentReference R1) = None \<and>
      getPrefetchedSegment s' (SegmentReference R1) (Some 5) = Inr (None, s')"
    using del by (simp add: deleteOnGet_def)
  from pos e3 miss e1 hit h o d show ?thesis by auto
qed

subsection \<open>C9: after the pruning pass\<close>



subsection \<open>C10: retrieval asserts a positive limit\<close>

text \<open>
  C10: \<^verbatim>\<open>getPrefetchedSegment\<close> fails its assertion whenever the limit is not
  positive (so for every prefetcher whose limit is 0), whatever the reference and whether
  or not it is in a table; and a call that returns has dispatched nothing.
\<close>

theorem getPrefetchedSegment_asserts_limit:
  "(prefetchLimit s \<le> 0 \<longrightarrow>
      getPrefetchedSegment s ref cb =
        Inl (AssertionError ''SegmentPrefetch can not be used when prefetchLimit <= 0.'')) \<and>
   (getPrefetchedSegment s ref cb = Inr (res, s') \<longrightarrow>
      0 < prefetchLimit s \<and> dispatched s' = dispatched s)"
  by (cases ref)
     (auto simp: getPrefetchedSegment_def update_operation_def Let_def
           split: option.splits if_splits)

theorem getPrefetchedSegment_asserts_limit_witness:
  "getPrefetchedSegment (new_SegmentPrefetch 0 example_stream 1 True) (SegmentReference R1) None =
     Inl (AssertionError ''SegmentPrefetch can not be used when prefetchLimit <= 0.'') \<and>
   getPrefetchedSegment example_prefetch (SegmentReference R1) None = Inr (Some 1, example_prefetch) \<and>
   0 < prefetchLimit example_prefetch"
proof -
  have ex: "getPrefetchedSegment example_prefetch (SegmentReference R1) None =
      Inr (Some 1, example_prefetch)"
    by (simp add: example_prefetch_def new_SegmentPrefetch_def example_stream_def
        example_index_def R1_def R2_def R3_def I1_def prefetchSegmentsByTime_def
        prefetch_visit_def prefetchInitSegment_def dispatchFetch_def clearInitSegments_def
        abortPrefetchedSegment_def abort_def operation_at_def new_SegmentPrefetchOperation_def
        op_dispatchFetch_def getPrefetchedSegment_def getOperation_def)
  have l0: "prefetchLimit (new_SegmentPrefetch 0 example_stream 1 True) \<le> 0"
    by (simp add: new_SegmentPrefetch_def)
  from getPrefetchedSegment_asserts_limit[of "new_SegmentPrefetch 0 example_stream 1 True"
      "SegmentReference R1" None]
    getPrefetchedSegment_asserts_limit[of example_prefetch "SegmentReference R1" None
      "Some 1" example_prefetch] ex l0
  show ?thesis by simp
qed


end
